theory Spec2Isabelle
  imports Main
begin

section \<open>Strings\<close>

text \<open>
  A JavaScript string is a sequence of UTF-16 code units. The programs below compare code
  units with the curly quotes U+201C and U+201D and with the line terminators U+2028 and
  U+2029, so a code unit is a natural number and a string is a list of them. An ASCII
  literal is written \<open>js ''...''\<close>.
\<close>

type_synonym jsstring = "nat list"

definition js :: "string \<Rightarrow> jsstring" where
  "js s = map of_char s"

text \<open>The character classes of the regular expressions in the source.\<close>

definition isDigit :: "nat \<Rightarrow> bool" where
  "isDigit c = (48 \<le> c \<and> c \<le> 57)"

definition isUpper :: "nat \<Rightarrow> bool" where
  "isUpper c = (65 \<le> c \<and> c \<le> 90)"

definition isLower :: "nat \<Rightarrow> bool" where
  "isLower c = (97 \<le> c \<and> c \<le> 122)"

text \<open>\<open>\w\<close> without the unicode flag: \<open>[A-Za-z0-9_]\<close>.\<close>

definition isWordChar :: "nat \<Rightarrow> bool" where
  "isWordChar c = (isDigit c \<or> isUpper c \<or> isLower c \<or> c = 95)"

text \<open>The code units that \<open>.\<close> does not match: LF, CR, U+2028, U+2029.\<close>

definition isLineTerminator :: "nat \<Rightarrow> bool" where
  "isLineTerminator c = (c = 10 \<or> c = 13 \<or> c = 8232 \<or> c = 8233)"

text \<open>\<open>\s\<close>: the white space and line terminator code points of ECMAScript.\<close>

definition isWhiteSpace :: "nat \<Rightarrow> bool" where
  "isWhiteSpace c = (c = 9 \<or> c = 10 \<or> c = 11 \<or> c = 12 \<or> c = 13 \<or> c = 32 \<or> c = 160
     \<or> c = 5760 \<or> (8192 \<le> c \<and> c \<le> 8202) \<or> c = 8232 \<or> c = 8233 \<or> c = 8239
     \<or> c = 8287 \<or> c = 12288 \<or> c = 65279)"

text \<open>\<open>s.startsWith(p)\<close>.\<close>

definition startsWith :: "jsstring \<Rightarrow> jsstring \<Rightarrow> bool" where
  "startsWith s p = (take (length p) s = p)"

text \<open>\<open>s.indexOf(c)\<close> for a single code unit: the first position, or -1.\<close>

definition indexOf :: "nat \<Rightarrow> jsstring \<Rightarrow> int" where
  "indexOf c s = (if c \<in> set s then int (length (takeWhile (\<lambda>x. x \<noteq> c) s)) else - 1)"

text \<open>
  \<open>.+\<close> followed by \<open>$\<close> (no multiline flag): the rest of the input, which must be
  non-empty and free of line terminators.
\<close>

definition dotPlusToEnd :: "jsstring \<Rightarrow> bool" where
  "dotPlusToEnd r = (r \<noteq> [] \<and> list_all (\<lambda>c. \<not> isLineTerminator c) r)"

section \<open>Hierarchical address codec\<close>

subsection \<open>The all-titles viewer (uscode/src/App.tsx)\<close>

datatype ViewState_uscode =
    HomeU
  | TitleU jsstring
  | SectionU jsstring jsstring "jsstring option"

text \<open>
  \<open>(\d+[A-Z]*)\<close> at the start of the input: the identifier and what follows it. Both
  quantifiers are greedy, and in every pattern of \<open>parseHash\<close> the group is followed by
  \<open>/\<close>, \<open>(\<close> or the end of the input, none of which a digit or a capital can stand for,
  so giving back characters never turns a failure into a match.
\<close>

definition matchNum :: "jsstring \<Rightarrow> (jsstring \<times> jsstring) option" where
  "matchNum s =
     (let ds = takeWhile isDigit s; r1 = dropWhile isDigit s;
          us = takeWhile isUpper r1; r2 = dropWhile isUpper r1
      in if ds = [] then None else Some (ds @ us, r2))"

text \<open>\<open>^t(\d+[A-Z]*)\<close>: the title identifier and the rest.\<close>

definition matchTitlePrefix :: "jsstring \<Rightarrow> (jsstring \<times> jsstring) option" where
  "matchTitlePrefix h =
     (case h of [] \<Rightarrow> None
      | c # r \<Rightarrow> if c = 116 then matchNum r else None)"

text \<open>\<open>^t(\d+[A-Z]*)\/s(\d+[A-Z]*)\<close>: title, section and the rest.\<close>

definition matchTitleSection :: "jsstring \<Rightarrow> (jsstring \<times> jsstring \<times> jsstring) option" where
  "matchTitleSection h =
     (case matchTitlePrefix h of None \<Rightarrow> None
      | Some (t, r1) \<Rightarrow>
          if startsWith r1 (js ''/s'')
          then (case matchNum (drop 2 r1) of None \<Rightarrow> None
                | Some (s, r2) \<Rightarrow> Some (t, s, r2))
          else None)"

text \<open>\<open>/^t(\d+[A-Z]*)\/s(\d+[A-Z]*)\/def\/(.+)$/\<close>\<close>

definition defMatch :: "jsstring \<Rightarrow> (jsstring \<times> jsstring \<times> jsstring) option" where
  "defMatch h =
     (case matchTitleSection h of None \<Rightarrow> None
      | Some (t, s, r) \<Rightarrow>
          if startsWith r (js ''/def/'') \<and> dotPlusToEnd (drop 5 r)
          then Some (t, s, drop 5 r) else None)"

text \<open>\<open>/^t(\d+[A-Z]*)\/s(\d+[A-Z]*)(\(.+)$/\<close>\<close>

definition secParenMatch :: "jsstring \<Rightarrow> (jsstring \<times> jsstring \<times> jsstring) option" where
  "secParenMatch h =
     (case matchTitleSection h of None \<Rightarrow> None
      | Some (t, s, r) \<Rightarrow>
          (case r of [] \<Rightarrow> None
           | c # r' \<Rightarrow> if c = 40 \<and> dotPlusToEnd r' then Some (t, s, r) else None))"

text \<open>\<open>/^t(\d+[A-Z]*)\/s(\d+[A-Z]*)$/\<close>\<close>

definition secMatch :: "jsstring \<Rightarrow> (jsstring \<times> jsstring) option" where
  "secMatch h =
     (case matchTitleSection h of None \<Rightarrow> None
      | Some (t, s, r) \<Rightarrow> if r = [] then Some (t, s) else None)"

text \<open>\<open>/^t(\d+[A-Z]*)$/\<close>\<close>

definition titleMatch :: "jsstring \<Rightarrow> jsstring option" where
  "titleMatch h =
     (case matchTitlePrefix h of None \<Rightarrow> None
      | Some (t, r) \<Rightarrow> if r = [] then Some t else None)"

text \<open>\<open>hash.replace(/^#\/?/, '')\<close>\<close>

definition stripHashPrefix :: "jsstring \<Rightarrow> jsstring" where
  "stripHashPrefix hash =
     (case hash of [] \<Rightarrow> []
      | c # r \<Rightarrow>
          if c = 35 then (case r of [] \<Rightarrow> [] | d # r' \<Rightarrow> if d = 47 then r' else r)
          else hash)"

definition parseHash_uscode :: "jsstring \<Rightarrow> ViewState_uscode" where
  "parseHash_uscode hash =
     (let h = stripHashPrefix hash in
      if h = [] then HomeU
      else case defMatch h of
             Some (t, s, g) \<Rightarrow> SectionU t s (Some (js ''def/'' @ g))
           | None \<Rightarrow>
        (case secParenMatch h of
             Some (t, s, a) \<Rightarrow> SectionU t s (Some a)
           | None \<Rightarrow>
        (case secMatch h of
             Some (t, s) \<Rightarrow> SectionU t s None
           | None \<Rightarrow>
        (case titleMatch h of
             Some t \<Rightarrow> TitleU t
           | None \<Rightarrow> HomeU))))"

text \<open>
  \<open>viewToHash\<close>: an absent anchor and the empty string are both falsy, and give no
  anchor in the address.
\<close>

definition viewToHash_uscode :: "ViewState_uscode \<Rightarrow> jsstring" where
  "viewToHash_uscode view =
     (case view of
        HomeU \<Rightarrow> js ''#''
      | TitleU t \<Rightarrow> js ''#t'' @ t
      | SectionU t s a \<Rightarrow>
          (let anchor =
             (case a of None \<Rightarrow> []
              | Some p \<Rightarrow>
                  if p = [] then []
                  else if startsWith p (js ''def/'') then js ''/'' @ p else p)
           in js ''#t'' @ t @ js ''/s'' @ s @ anchor))"

subsection \<open>The Title 17 viewer (src/App.tsx)\<close>

datatype ViewState =
    Home
  | Chapter jsstring
  | Section jsstring "jsstring option"

text \<open>\<open>/^(\d+[A-Z]*)\/def\/(.+)$/\<close> on what follows \<open>section/\<close>.\<close>

definition defMatch_section :: "jsstring \<Rightarrow> (jsstring \<times> jsstring) option" where
  "defMatch_section rest =
     (case matchNum rest of None \<Rightarrow> None
      | Some (s, r) \<Rightarrow>
          if startsWith r (js ''/def/'') \<and> dotPlusToEnd (drop 5 r)
          then Some (s, drop 5 r) else None)"

definition parseHash :: "jsstring \<Rightarrow> ViewState" where
  "parseHash hash =
     (let h = stripHashPrefix hash in
      if h = [] then Home
      else if startsWith h (js ''section/'') then
        (let rest = drop 8 h in
         case defMatch_section rest of
           Some (s, g) \<Rightarrow> Section s (Some (js ''def/'' @ g))
         | None \<Rightarrow>
             (let parenIdx = indexOf 40 rest in
              if 0 < parenIdx
              then Section (take (nat parenIdx) rest) (Some (drop (nat parenIdx) rest))
              else Section rest None))
      else if startsWith h (js ''chapter/'') then Chapter (drop 8 h)
      else Home)"

text \<open>\<open>viewToHash\<close> of this viewer writes the section number only.\<close>

definition viewToHash :: "ViewState \<Rightarrow> jsstring" where
  "viewToHash view =
     (case view of
        Section s a \<Rightarrow> js ''#section/'' @ s
      | Chapter c \<Rightarrow> js ''#chapter/'' @ c
      | Home \<Rightarrow> js ''#'')"

text \<open>
  The targets that the round trip returns. In the all-titles viewer: identifiers of the
  shape that the decoder's patterns read, and an anchor that is a path (an open
  parenthesis and more) or \<open>def/\<close> and a slug. In the Title 17 viewer, whose encoder writes
  no anchor: a section without an anchor whose number the decoder does not split.
\<close>

definition isIdent :: "jsstring \<Rightarrow> bool" where
  "isIdent s = (matchNum s = Some (s, []))"

definition isParenAnchor :: "jsstring \<Rightarrow> bool" where
  "isParenAnchor a = (case a of [] \<Rightarrow> False | c # r \<Rightarrow> c = 40 \<and> dotPlusToEnd r)"

definition isDefAnchor :: "jsstring \<Rightarrow> bool" where
  "isDefAnchor a = (startsWith a (js ''def/'') \<and> dotPlusToEnd (drop 4 a))"

fun wf_view_uscode :: "ViewState_uscode \<Rightarrow> bool" where
  "wf_view_uscode HomeU = True"
| "wf_view_uscode (TitleU t) = isIdent t"
| "wf_view_uscode (SectionU t s None) = (isIdent t \<and> isIdent s)"
| "wf_view_uscode (SectionU t s (Some a)) =
     (isIdent t \<and> isIdent s \<and> (isParenAnchor a \<or> isDefAnchor a))"

fun wf_view :: "ViewState \<Rightarrow> bool" where
  "wf_view Home = True"
| "wf_view (Chapter c) = True"
| "wf_view (Section s None) = (defMatch_section s = None \<and> indexOf 40 s \<le> 0)"
| "wf_view (Section s (Some a)) = False"

section \<open>Structural path builder\<close>

text \<open>
  A content block. \<open>indent\<close> is a JavaScript number that the data source fills with
  integers; it is an \<open>int\<close> here, so that a negative depth can be looked at.
\<close>

record ContentBlock =
  type :: jsstring
  indent :: int
  html :: jsstring

definition STRUCTURAL_TYPES :: "jsstring set" where
  "STRUCTURAL_TYPES = {js ''subsection'', js ''paragraph'', js ''subparagraph'',
     js ''clause'', js ''subclause'', js ''item'', js ''subitem''}"

definition spanOpen :: jsstring where
  "spanOpen = js ''<span class=\"num\">''"

definition spanClose :: jsstring where
  "spanClose = js ''</span>''"

text \<open>
  \<open>html.match(/^<span class="num">([^<]*)<\/span>([\s\S]*)/)\<close>: the greedy class
  \<open>[^<]*\<close> stops at the first \<open><\<close>, where \<open></span>\<close> must follow; a shorter run would
  leave a character other than \<open><\<close> in front of the literal, so the match is decided
  there. The result is \<open>numText\<close> and \<open>restHtml\<close>.
\<close>

definition splitBlockHtml :: "jsstring \<Rightarrow> (jsstring \<times> jsstring) option" where
  "splitBlockHtml h =
     (if startsWith h spanOpen then
        (let r = drop (length spanOpen) h;
             numText = takeWhile (\<lambda>c. c \<noteq> 60) r;
             r2 = dropWhile (\<lambda>c. c \<noteq> 60) r
         in if startsWith r2 spanClose then Some (numText, drop (length spanClose) r2)
            else None)
      else None)"

text \<open>\<open>String.prototype.trim\<close> removes white space and line terminators at both ends.\<close>

definition trim :: "jsstring \<Rightarrow> jsstring" where
  "trim s = rev (dropWhile isWhiteSpace (rev (dropWhile isWhiteSpace s)))"

text \<open>
  An entry of the result. The source calls the second field \<open>id\<close>; the specification
  calls it \<open>anchorId\<close>.
\<close>

record ParaMeta =
  path :: jsstring
  anchorId :: jsstring

subsection \<open>The Title 17 viewer (src/App.tsx)\<close>

text \<open>
  The stack is an array of \<open>{indent, numText}\<close> whose top is its last element. The
  \<open>while\<close> loop pops the entries at the same or a deeper indent.
\<close>

definition popStack :: "int \<Rightarrow> (int \<times> jsstring) list \<Rightarrow> (int \<times> jsstring) list" where
  "popStack ind stack = rev (dropWhile (\<lambda>e. ind \<le> fst e) (rev stack))"

text \<open>
  The body of \<open>content.forEach\<close>, from block \<open>i\<close> on. The \<open>Map\<close> receives each key once,
  in increasing order, so it is the list of its entries in insertion order.
\<close>

fun buildLoop ::
  "jsstring \<Rightarrow> nat \<Rightarrow> (int \<times> jsstring) list \<Rightarrow> ContentBlock list \<Rightarrow> (nat \<times> ParaMeta) list"
where
  "buildLoop sectionNum i stack [] = []"
| "buildLoop sectionNum i stack (block # rest) =
     (if type block \<notin> STRUCTURAL_TYPES then buildLoop sectionNum (Suc i) stack rest
      else case splitBlockHtml (html block) of
        None \<Rightarrow> buildLoop sectionNum (Suc i) stack rest
      | Some (numText, restHtml) \<Rightarrow>
          (let stack' = popStack (indent block) stack @ [(indent block, trim numText)];
               p = concat (map snd stack')
           in (i, \<lparr>path = p, anchorId = js ''p-'' @ sectionNum @ p\<rparr>)
                # buildLoop sectionNum (Suc i) stack' rest))"

definition buildParaMetaMap :: "ContentBlock list \<Rightarrow> jsstring \<Rightarrow> (nat \<times> ParaMeta) list" where
  "buildParaMetaMap content sectionNum = buildLoop sectionNum 0 [] content"

text \<open>
  How \<open>SectionView\<close> renders block \<open>i\<close> of a section other than 101: with the paragraph
  tools when the map has an entry for it and its markup splits, as plain content
  otherwise. \<open>annotateTerms\<close> is the annotator of the view.
\<close>

datatype BlockRendering =
    ParagraphToolBlock jsstring jsstring jsstring
  | PlainBlock jsstring

definition renderBlock ::
  "(jsstring \<Rightarrow> jsstring) \<Rightarrow> (nat \<times> ParaMeta) list \<Rightarrow> nat \<Rightarrow> ContentBlock \<Rightarrow> BlockRendering"
where
  "renderBlock annotateTerms paraMetaMap i block =
     (case map_of paraMetaMap i of
        None \<Rightarrow> PlainBlock (annotateTerms (html block))
      | Some meta \<Rightarrow>
          (case splitBlockHtml (html block) of
             None \<Rightarrow> PlainBlock (annotateTerms (html block))
           | Some (numText, restHtml) \<Rightarrow>
               ParagraphToolBlock (anchorId meta) numText (annotateTerms restHtml)))"

subsection \<open>The all-titles viewer (uscode/src/App.tsx)\<close>

datatype error = RangeError

text \<open>
  \<open>(.*?)<\/span>\<close> from the current position: the shortest run of characters other than
  line terminators that \<open></span>\<close> follows.
\<close>

fun lazyUntilClose :: "jsstring \<Rightarrow> jsstring option" where
  "lazyUntilClose [] = None"
| "lazyUntilClose (c # r) =
     (if startsWith (c # r) spanClose then Some []
      else if isLineTerminator c then None
      else map_option ((#) c) (lazyUntilClose r))"

text \<open>
  \<open>block.html.match(/<span class="num">(.*?)<\/span>/)\<close>, not anchored: the leftmost
  position where the pattern matches; the result is the group.
\<close>

fun findNumSpan :: "jsstring \<Rightarrow> jsstring option" where
  "findNumSpan [] = None"
| "findNumSpan (c # r) =
     (if startsWith (c # r) spanOpen then
        (case lazyUntilClose (drop (length spanOpen) (c # r)) of
           Some num \<Rightarrow> Some num
         | None \<Rightarrow> findNumSpan r)
      else findNumSpan r)"

text \<open>
  \<open>stack.length = depth\<close> on an array with holes: an element is a string or a hole. It
  cuts the array or fills it with holes; a length that is negative or above \<open>2^32 - 1\<close>
  throws a RangeError.
\<close>

definition setLength :: "nat \<Rightarrow> jsstring option list \<Rightarrow> jsstring option list" where
  "setLength n stack = take n stack @ replicate (n - length stack) None"

text \<open>\<open>join('')\<close> writes a hole as the empty string.\<close>

definition joinStack :: "jsstring option list \<Rightarrow> jsstring" where
  "joinStack stack = concat (map (\<lambda>e. case e of None \<Rightarrow> [] | Some s \<Rightarrow> s) stack)"

text \<open>
  The body of the \<open>for\<close> loop, from block \<open>i\<close> on. \<open>stack[depth] = num\<close> adds an element
  unless \<open>depth\<close> is \<open>2^32 - 1\<close>, which is not an array index.
\<close>

fun buildLoop_uscode ::
  "jsstring \<Rightarrow> nat \<Rightarrow> jsstring option list \<Rightarrow> ContentBlock list
     \<Rightarrow> error + (nat \<times> ParaMeta) list"
where
  "buildLoop_uscode sectionNum i stack [] = Inr []"
| "buildLoop_uscode sectionNum i stack (block # rest) =
     (if type block \<notin> STRUCTURAL_TYPES then buildLoop_uscode sectionNum (Suc i) stack rest
      else case findNumSpan (html block) of
        None \<Rightarrow> buildLoop_uscode sectionNum (Suc i) stack rest
      | Some num \<Rightarrow>
          (let depth = indent block - 1 in
           if depth < 0 \<or> 4294967295 < depth then Inl RangeError
           else
             (let stack1 = setLength (nat depth) stack;
                  stack2 = (if depth < 4294967295 then stack1 @ [Some num] else stack1);
                  p = joinStack (take (nat depth + 1) stack2)
              in case buildLoop_uscode sectionNum (Suc i) stack2 rest of
                   Inl e \<Rightarrow> Inl e
                 | Inr entries \<Rightarrow>
                     Inr ((i, \<lparr>path = p, anchorId = js ''p-'' @ sectionNum @ p\<rparr>) # entries))))"

definition buildParaMetaMap_uscode ::
  "ContentBlock list \<Rightarrow> jsstring \<Rightarrow> error + (nat \<times> ParaMeta) list" where
  "buildParaMetaMap_uscode blocks sectionNum = buildLoop_uscode sectionNum 0 [] blocks"

text \<open>
  Indent depths are contiguous when the first structural block is at depth 0 and every
  later one is at most one level below the block before it.
\<close>

fun contiguous :: "int \<Rightarrow> int list \<Rightarrow> bool" where
  "contiguous prev [] = True"
| "contiguous prev (d # ds) = (0 \<le> d \<and> d \<le> prev + 1 \<and> contiguous d ds)"

text \<open>The blocks that the builder gives an entry: structural, with a designator span.\<close>

definition hasDesignator :: "ContentBlock \<Rightarrow> bool" where
  "hasDesignator block =
     (type block \<in> STRUCTURAL_TYPES \<and> splitBlockHtml (html block) \<noteq> None)"

definition designator :: "ContentBlock \<Rightarrow> jsstring" where
  "designator block =
     (case splitBlockHtml (html block) of None \<Rightarrow> [] | Some (numText, restHtml) \<Rightarrow> trim numText)"

text \<open>Renumbering of the entries when a block is inserted at position \<open>k\<close>.\<close>

definition shiftFrom :: "nat \<Rightarrow> nat \<times> ParaMeta \<Rightarrow> nat \<times> ParaMeta" where
  "shiftFrom k e = (if fst e < k then fst e else Suc (fst e), snd e)"

text \<open>The two blocks of the specification's scenario, and a block without a designator.\<close>

definition block_b :: ContentBlock where
  "block_b = \<lparr>type = js ''subsection'', indent = 0,
              html = js ''<span class=\"num\">(b)</span> text''\<rparr>"

definition block_1 :: ContentBlock where
  "block_1 = \<lparr>type = js ''paragraph'', indent = 1,
              html = js ''<span class=\"num\">(1)</span> more''\<rparr>"

definition block_plain :: ContentBlock where
  "block_plain = \<lparr>type = js ''paragraph'', indent = 1, html = js ''(2) text''\<rparr>"

subsection \<open>Parents and siblings\<close>

text \<open>
  The blocks that the builder of the Title 17 viewer gives an entry, in their order, each
  as its indent and its designator.
\<close>

definition designated :: "ContentBlock list \<Rightarrow> (int \<times> jsstring) list" where
  "designated content = map (\<lambda>b. (indent b, designator b)) (filter hasDesignator content)"

text \<open>
  The parent of the \<open>j\<close>-th of these blocks is the nearest earlier one with a smaller
  indent; a block without one is at the top.
\<close>

definition parentOf :: "(int \<times> jsstring) list \<Rightarrow> nat \<Rightarrow> nat option" where
  "parentOf ds j = find (\<lambda>k. fst (ds ! k) < fst (ds ! j)) (rev [0..<j])"

text \<open>No two blocks with the same parent, or both at the top, have the same designator.\<close>

definition siblingsDistinct :: "(int \<times> jsstring) list \<Rightarrow> bool" where
  "siblingsDistinct ds =
     (\<forall>j<length ds. \<forall>i<j. parentOf ds i = parentOf ds j \<longrightarrow> snd (ds ! i) \<noteq> snd (ds ! j))"

text \<open>No designator is empty, and none is the beginning of another one.\<close>

definition prefixFree :: "jsstring list \<Rightarrow> bool" where
  "prefixFree toks = (\<forall>a\<in>set toks. a \<noteq> [] \<and> (\<forall>b\<in>set toks. startsWith b a \<longrightarrow> a = b))"

text \<open>The paths that the loop writes, as a function of the designated blocks alone.\<close>

fun pathsFrom :: "(int \<times> jsstring) list \<Rightarrow> (int \<times> jsstring) list \<Rightarrow> jsstring list" where
  "pathsFrom stack [] = []"
| "pathsFrom stack (e # es) =
     (let stack' = popStack (fst e) stack @ [e]
      in concat (map snd stack') # pathsFrom stack' es)"

text \<open>The stack after the first \<open>k\<close> designated blocks.\<close>

definition stackAfter :: "(int \<times> jsstring) list \<Rightarrow> nat \<Rightarrow> (int \<times> jsstring) list" where
  "stackAfter ds k = foldl (\<lambda>st e. popStack (fst e) st @ [e]) [] (take k ds)"

text \<open>
  The ancestors, among the first \<open>k\<close> blocks, of a block of indent \<open>d\<close> that follows them:
  the nearest block of smaller indent, in front of it the ancestors of that block.
\<close>

fun anc :: "(int \<times> jsstring) list \<Rightarrow> int \<Rightarrow> nat \<Rightarrow> nat list" where
  "anc ds d 0 = []"
| "anc ds d (Suc k) =
     (if fst (ds ! k) < d then anc ds (fst (ds ! k)) k @ [k] else anc ds d k)"

text \<open>The designators of the ancestors of block \<open>j\<close> and its own.\<close>

definition chainToks :: "(int \<times> jsstring) list \<Rightarrow> nat \<Rightarrow> jsstring list" where
  "chainToks ds j = map (\<lambda>i. snd (ds ! i)) (anc ds (fst (ds ! j)) j @ [j])"

text \<open>A second subsection, and a subsection whose designator is \<open>(b)(1)\<close>.\<close>

definition block_c :: ContentBlock where
  "block_c = \<lparr>type = js ''subsection'', indent = 0,
              html = js ''<span class=\"num\">(c)</span> text''\<rparr>"

definition block_b1 :: ContentBlock where
  "block_b1 = \<lparr>type = js ''subsection'', indent = 0,
               html = js ''<span class=\"num\">(b)(1)</span> text''\<rparr>"

section \<open>Definition extractor\<close>

text \<open>
  \<open>String.prototype.toLowerCase\<close>. On a string of ASCII code units it maps the capitals to
  the small letters, one by one. On any other string it is the Unicode default case
  conversion of the host, which is not part of the repository: it is the parameter \<open>lc\<close>.
\<close>

definition asciiLower :: "nat \<Rightarrow> nat" where
  "asciiLower c = (if isUpper c then c + 32 else c)"

definition toLowerCase :: "(jsstring \<Rightarrow> jsstring) \<Rightarrow> jsstring \<Rightarrow> jsstring" where
  "toLowerCase lc s = (if list_all (\<lambda>c. c < 128) s then map asciiLower s else lc s)"

text \<open>\<open>[a-z0-9]\<close>\<close>

definition isSlugChar :: "nat \<Rightarrow> bool" where
  "isSlugChar c = (isLower c \<or> isDigit c)"

text \<open>
  \<open>.replace(/[^a-z0-9]+/g, '-')\<close>: every maximal run of other characters becomes one
  hyphen. The flag says that the previous character belonged to such a run.
\<close>

fun collapseRuns :: "bool \<Rightarrow> jsstring \<Rightarrow> jsstring" where
  "collapseRuns inRun [] = []"
| "collapseRuns inRun (c # r) =
     (if isSlugChar c then c # collapseRuns False r
      else if inRun then collapseRuns True r
      else 45 # collapseRuns True r)"

text \<open>\<open>.replace(/^-+|-+$/g, '')\<close>: the hyphens at the start and at the end go.\<close>

definition stripHyphens :: "jsstring \<Rightarrow> jsstring" where
  "stripHyphens s = rev (dropWhile (\<lambda>c. c = 45) (rev (dropWhile (\<lambda>c. c = 45) s)))"

text \<open>\<open>.replace(/^-|-$/g, '')\<close>: one hyphen at the start and one at the end go.\<close>

definition stripOneHyphen :: "jsstring \<Rightarrow> jsstring" where
  "stripOneHyphen s =
     (let s1 = (case s of [] \<Rightarrow> [] | c # r \<Rightarrow> if c = 45 then r else s)
      in if s1 \<noteq> [] \<and> last s1 = 45 then butlast s1 else s1)"

definition slugify :: "(jsstring \<Rightarrow> jsstring) \<Rightarrow> jsstring \<Rightarrow> jsstring" where
  "slugify lc t = stripHyphens (collapseRuns False (toLowerCase lc t))"

definition slugify_uscode :: "(jsstring \<Rightarrow> jsstring) \<Rightarrow> jsstring \<Rightarrow> jsstring" where
  "slugify_uscode lc t = stripOneHyphen (collapseRuns False (toLowerCase lc t))"

text \<open>
  \<open>([^...]+)\u201d\<close> after the opening quote U+201C: the greedy class takes every character up to
  the first excluded one, which must be the closing quote U+201D, and the run must not be
  empty; a shorter run would end in front of an allowed character, not of the quote.
\<close>

definition quotedRun :: "(nat \<Rightarrow> bool) \<Rightarrow> jsstring \<Rightarrow> jsstring option" where
  "quotedRun excluded s =
     (let run = takeWhile (\<lambda>c. \<not> excluded c) s; r = dropWhile (\<lambda>c. \<not> excluded c) s
      in if run \<noteq> [] \<and> r \<noteq> [] \<and> hd r = 8221 then Some run else None)"

text \<open>The leftmost match of \<open>\u201c([^...]+)\u201d\<close>; the result is the group.\<close>

fun firstQuoted :: "(nat \<Rightarrow> bool) \<Rightarrow> jsstring \<Rightarrow> jsstring option" where
  "firstQuoted excluded [] = None"
| "firstQuoted excluded (c # r) =
     (if c = 8220 then
        (case quotedRun excluded r of Some t \<Rightarrow> Some t | None \<Rightarrow> firstQuoted excluded r)
      else firstQuoted excluded r)"

text \<open>\<open>/\u201c([^\u201d]+)\u201d/\<close> and \<open>/\u201c([^""\u201d]+)\u201d/\<close>\<close>

definition termMatch :: "jsstring \<Rightarrow> jsstring option" where
  "termMatch s = firstQuoted (\<lambda>c. c = 8221) s"

definition termMatch_uscode :: "jsstring \<Rightarrow> jsstring option" where
  "termMatch_uscode s = firstQuoted (\<lambda>c. c = 34 \<or> c = 8221) s"

text \<open>
  \<open>/<p class="(indent\d+)">([\s\S]*?)<\/p>/\<close> at the start of the input. The digits are
  followed by \<open>">\<close>, so the greedy \<open>\d+\<close> decides; the lazy \<open>[\s\S]*?\<close> stops at the first
  \<open></p>\<close>. The result is the class, the inner markup and what follows the paragraph.
\<close>

fun untilPClose :: "jsstring \<Rightarrow> (jsstring \<times> jsstring) option" where
  "untilPClose [] = None"
| "untilPClose (c # r) =
     (if startsWith (c # r) (js ''</p>'') then Some ([], drop 4 (c # r))
      else (case untilPClose r of None \<Rightarrow> None
            | Some (inner, rest) \<Rightarrow> Some (c # inner, rest)))"

definition matchParagraph :: "jsstring \<Rightarrow> (jsstring \<times> jsstring \<times> jsstring) option" where
  "matchParagraph s =
     (if startsWith s (js ''<p class=\"indent'') then
        (let r = drop 16 s; ds = takeWhile isDigit r; r2 = dropWhile isDigit r
         in if ds \<noteq> [] \<and> startsWith r2 (js ''\">'') then
              (case untilPClose (drop 2 r2) of None \<Rightarrow> None
               | Some (inner, rest) \<Rightarrow> Some (js ''indent'' @ ds, inner, rest))
            else None)
      else None)"

subsection \<open>The Title 17 viewer (src/App.tsx)\<close>

text \<open>A paragraph of section 101; \<open>term\<close> and \<open>slug\<close> are strings or \<open>null\<close>.\<close>

record Sec101Def =
  indentClass :: jsstring
  innerHtml :: jsstring
  term101 :: "jsstring option"
  slug101 :: "jsstring option"

definition mkSec101Def :: "(jsstring \<Rightarrow> jsstring) \<Rightarrow> jsstring \<Rightarrow> jsstring \<Rightarrow> Sec101Def" where
  "mkSec101Def lc cls inner =
     (if cls = js ''indent1'' then
        (case termMatch inner of
           Some t \<Rightarrow> \<lparr>indentClass = cls, innerHtml = inner,
                       term101 = Some t, slug101 = Some (slugify lc t)\<rparr>
         | None \<Rightarrow> \<lparr>indentClass = cls, innerHtml = inner, term101 = None, slug101 = None\<rparr>)
      else \<lparr>indentClass = cls, innerHtml = inner, term101 = None, slug101 = None\<rparr>)"

text \<open>
  The \<open>while ((m = pRegex.exec(html)) !== null)\<close> loop: the next match is the leftmost
  one in what is left of the input, and the search goes on behind it.
\<close>

function parseSec101Defs :: "(jsstring \<Rightarrow> jsstring) \<Rightarrow> jsstring \<Rightarrow> Sec101Def list" where
  "parseSec101Defs lc [] = []"
| "parseSec101Defs lc (c # r) =
     (case matchParagraph (c # r) of
        Some (cls, inner, rest) \<Rightarrow> mkSec101Def lc cls inner # parseSec101Defs lc rest
      | None \<Rightarrow> parseSec101Defs lc r)"
  by pat_completeness auto
termination
proof -
  have u: "untilPClose s = Some (inner, rest) \<Longrightarrow> length rest < length s"
    for s inner rest
    by (induction s arbitrary: inner) (auto split: if_splits option.splits)
  have m: "matchParagraph s = Some (cls, inner, rest) \<Longrightarrow> length rest < length s"
    for s cls inner rest
  proof -
    assume "matchParagraph s = Some (cls, inner, rest)"
    then have "untilPClose (drop 2 (dropWhile isDigit (drop 16 s))) = Some (inner, rest)"
      by (auto simp: matchParagraph_def Let_def split: if_splits option.splits)
    from u[OF this] have "length rest < length (dropWhile isDigit (drop 16 s))" by simp
    also have "\<dots> \<le> length (drop 16 s)" by (rule length_dropWhile_le)
    finally show ?thesis by simp
  qed
  show ?thesis
    by (relation "measure (\<lambda>(lc, s). length s)") (auto dest: m)
qed

subsection \<open>The all-titles viewer (uscode/src/App.tsx)\<close>

text \<open>Here \<open>term\<close> and \<open>slug\<close> are strings, empty when there is no term.\<close>

record Sec101Def_uscode =
  slug_u :: jsstring
  term_u :: jsstring
  innerHtml_u :: jsstring
  indentClass_u :: jsstring

definition mkSec101Def_uscode ::
  "(jsstring \<Rightarrow> jsstring) \<Rightarrow> jsstring \<Rightarrow> jsstring \<Rightarrow> Sec101Def_uscode" where
  "mkSec101Def_uscode lc cls inner =
     (if cls = js ''indent1'' then
        (let t = (case termMatch_uscode inner of Some t \<Rightarrow> t | None \<Rightarrow> [])
         in \<lparr>slug_u = slugify_uscode lc t, term_u = t,
             innerHtml_u = inner, indentClass_u = cls\<rparr>)
      else \<lparr>slug_u = [], term_u = [], innerHtml_u = inner, indentClass_u = cls\<rparr>)"

function parseSec101Defs_uscode ::
  "(jsstring \<Rightarrow> jsstring) \<Rightarrow> jsstring \<Rightarrow> Sec101Def_uscode list" where
  "parseSec101Defs_uscode lc [] = []"
| "parseSec101Defs_uscode lc (c # r) =
     (case matchParagraph (c # r) of
        Some (cls, inner, rest) \<Rightarrow>
          mkSec101Def_uscode lc cls inner # parseSec101Defs_uscode lc rest
      | None \<Rightarrow> parseSec101Defs_uscode lc r)"
  by pat_completeness auto
termination
proof -
  have u: "untilPClose s = Some (inner, rest) \<Longrightarrow> length rest < length s"
    for s inner rest
    by (induction s arbitrary: inner) (auto split: if_splits option.splits)
  have m: "matchParagraph s = Some (cls, inner, rest) \<Longrightarrow> length rest < length s"
    for s cls inner rest
  proof -
    assume "matchParagraph s = Some (cls, inner, rest)"
    then have "untilPClose (drop 2 (dropWhile isDigit (drop 16 s))) = Some (inner, rest)"
      by (auto simp: matchParagraph_def Let_def split: if_splits option.splits)
    from u[OF this] have "length rest < length (dropWhile isDigit (drop 16 s))" by simp
    also have "\<dots> \<le> length (drop 16 s)" by (rule length_dropWhile_le)
    finally show ?thesis by simp
  qed
  show ?thesis
    by (relation "measure (\<lambda>(lc, s). length s)") (auto dest: m)
qed

text \<open>The definitions block of the specification's scenario.\<close>

definition motionPictureHtml :: jsstring where
  "motionPictureHtml = js ''<p class=\"indent1\">'' @ [8220] @ js ''motion picture'' @ [8221]
     @ js '' means audiovisual works'' @ [8230] @ js ''</p>''"

text \<open>
  A paragraph whose first curly-quoted span contains ASCII double quotes:
  \<open><p class="indent1">\u201ca "b"\u201d or \u201cc\u201d</p>\<close>.
\<close>

definition nestedQuoteHtml :: jsstring where
  "nestedQuoteHtml = js ''<p class=\"indent1\">'' @ [8220] @ js ''a \"b\"'' @ [8221]
     @ js '' or '' @ [8220] @ js ''c'' @ [8221] @ js ''</p>''"

text \<open>
  A paragraph whose term has capitals, a run of several other characters in the middle
  and one at the end: \<open><p class="indent1">\u201cMotion Picture (3-D)\u201d means a film</p>\<close>.
\<close>

definition capitalTermHtml :: jsstring where
  "capitalTermHtml = js ''<p class=\"indent1\">'' @ [8220] @ js ''Motion Picture (3-D)'' @ [8221]
     @ js '' means a film</p>''"

text \<open>
  A paragraph whose only curly-quoted span contains an ASCII double quote:
  \<open><p class="indent1">\u201c7" disc\u201d means a record</p>\<close>.
\<close>

definition inchMarkHtml :: jsstring where
  "inchMarkHtml = js ''<p class=\"indent1\">'' @ [8220] @ js ''7\" disc'' @ [8221]
     @ js '' means a record</p>''"

text \<open>No two hyphens stand side by side.\<close>

fun noDoubleHyphen :: "jsstring \<Rightarrow> bool" where
  "noDoubleHyphen (a # b # r) = (\<not> (a = 45 \<and> b = 45) \<and> noDoubleHyphen (b # r))"
| "noDoubleHyphen r = True"

text \<open>The shape of a slug: small letters, digits and single hyphens, none at an end.\<close>

definition slugShaped :: "jsstring \<Rightarrow> bool" where
  "slugShaped s = (list_all (\<lambda>c. isSlugChar c \<or> c = 45) s \<and> noDoubleHyphen s \<and>
     (s = [] \<or> (hd s \<noteq> 45 \<and> last s \<noteq> 45)))"

section \<open>Term annotator\<close>

text \<open>A definition record handed to the annotator; the source calls the first field \<open>term\<close>.\<close>

record TermDef =
  termText :: jsstring
  slug :: jsstring
  source :: jsstring

text \<open>
  The comparison of characters under the \<open>i\<close> flag without the \<open>u\<close> flag: a code unit is
  replaced by its upper case, unless that is not a single code unit or would turn a
  non-ASCII code unit into an ASCII one. The upper case of a code unit from 128 on comes
  from the Unicode tables of the host, which are the parameter \<open>uc\<close>.
\<close>

definition canonicalize :: "(nat \<Rightarrow> nat) \<Rightarrow> nat \<Rightarrow> nat" where
  "canonicalize uc c =
     (if c < 128 then (if isLower c then c - 32 else c)
      else (let u = uc c in if u < 128 then c else u))"

text \<open>
  \<open>\b\<close>: exactly one of the character before and the character at the position is a word
  character. \<open>prev\<close> is the character before, \<open>None\<close> at the start of the input.
\<close>

definition isWordAt :: "nat option \<Rightarrow> bool" where
  "isWordAt p = (case p of None \<Rightarrow> False | Some c \<Rightarrow> isWordChar c)"

definition nextChar :: "jsstring \<Rightarrow> nat option" where
  "nextChar s = (case s of [] \<Rightarrow> None | c # r \<Rightarrow> Some c)"

definition wordBoundary :: "nat option \<Rightarrow> jsstring \<Rightarrow> bool" where
  "wordBoundary prev s = (isWordAt prev \<noteq> isWordAt (nextChar s))"

text \<open>
  The pattern of one term: the metacharacters are escaped, so every character stands for
  itself, and then every space is replaced by \<open>\s+\<close>.
\<close>

datatype item = Lit nat | WsPlus

definition termItems :: "jsstring \<Rightarrow> item list" where
  "termItems t = map (\<lambda>c. if c = 32 then WsPlus else Lit c) t"

text \<open>
  What \<open>\s+\<close> can leave of the input, in the order in which the greedy quantifier tries:
  the longest run of white space first, one character last.
\<close>

fun wsRests :: "jsstring \<Rightarrow> jsstring list" where
  "wsRests [] = []"
| "wsRests (x # r) = (if isWhiteSpace x then wsRests r @ [r] else [])"

text \<open>
  All the ways in which a sequence of items matches at the start of the input, in the
  order of backtracking. Each way is given by the input it leaves.
\<close>

fun matchItems :: "(nat \<Rightarrow> nat) \<Rightarrow> item list \<Rightarrow> jsstring \<Rightarrow> jsstring list" where
  "matchItems uc [] s = [s]"
| "matchItems uc (Lit c # its) s =
     (case s of [] \<Rightarrow> []
      | x # r \<Rightarrow> if canonicalize uc x = canonicalize uc c then matchItems uc its r else [])"
| "matchItems uc (WsPlus # its) s = concat (map (\<lambda>r. matchItems uc its r) (wsRests s))"

definition matched :: "jsstring \<Rightarrow> jsstring \<Rightarrow> jsstring" where
  "matched s rest = take (length s - length rest) s"

definition lastChar :: "nat option \<Rightarrow> jsstring \<Rightarrow> nat option" where
  "lastChar prev m = (if m = [] then prev else Some (last m))"

text \<open>
  \<open>\b(alt1|alt2|...)\b\<close> at one position: the alternatives are tried in their order, each
  with its own backtracking, and the first way that ends at a word boundary is the match.
  The result is the matched text and the input after it.
\<close>

definition matchAt ::
  "(nat \<Rightarrow> nat) \<Rightarrow> item list list \<Rightarrow> nat option \<Rightarrow> jsstring \<Rightarrow> (jsstring \<times> jsstring) option"
where
  "matchAt uc alts prev s =
     (if wordBoundary prev s then
        (case filter (\<lambda>rest. wordBoundary (lastChar prev (matched s rest)) rest)
                (concat (map (\<lambda>a. matchItems uc a s) alts)) of
           [] \<Rightarrow> None
         | rest # others \<Rightarrow> Some (matched s rest, rest))
      else None)"

text \<open>
  \<open>part.replace(termRe, cb)\<close> with the \<open>g\<close> flag, from a position on: the leftmost match is
  replaced by what the callback returns for it, and the search goes on behind the match
  (one character further after an empty match).
\<close>

function replaceFrom ::
  "(nat \<Rightarrow> nat) \<Rightarrow> item list list \<Rightarrow> (jsstring \<Rightarrow> jsstring) \<Rightarrow> nat option \<Rightarrow> jsstring \<Rightarrow> jsstring"
where
  "replaceFrom uc alts cb prev [] =
     (case matchAt uc alts prev [] of None \<Rightarrow> [] | Some (m, rest) \<Rightarrow> cb m)"
| "replaceFrom uc alts cb prev (c # r) =
     (case matchAt uc alts prev (c # r) of
        None \<Rightarrow> c # replaceFrom uc alts cb (Some c) r
      | Some (m, rest) \<Rightarrow>
          if m = [] then cb m @ c # replaceFrom uc alts cb (Some c) r
          else cb m @ replaceFrom uc alts cb (Some (last m)) rest)"
  by pat_completeness auto
termination
proof -
  have m: "matchAt uc alts prev s = Some (m, rest) \<Longrightarrow> m \<noteq> [] \<Longrightarrow> length rest < length s"
    for uc alts prev s m rest
    by (auto simp: matchAt_def matched_def split: if_splits list.splits)
  show ?thesis
    by (relation "measure (\<lambda>(uc, alts, cb, prev, s). length s)") (auto dest: m)
qed

text \<open>
  \<open>/(<[^>]+>)/\<close> at the start of the input: \<open><\<close>, at least one character other than
  \<open>>\<close>, and the first \<open>>\<close>. The result is the tag and what follows it.
\<close>

definition matchTag :: "jsstring \<Rightarrow> (jsstring \<times> jsstring) option" where
  "matchTag s =
     (case s of [] \<Rightarrow> None
      | c # r \<Rightarrow>
          if c = 60 then
            (let body = takeWhile (\<lambda>x. x \<noteq> 62) r; r2 = dropWhile (\<lambda>x. x \<noteq> 62) r
             in if body \<noteq> [] \<and> r2 \<noteq> [] then Some (60 # body @ [62], tl r2) else None)
          else None)"

text \<open>
  \<open>html.split(/(<[^>]+>)/g)\<close>: texts at the even positions, tags at the odd ones. \<open>txt\<close> is
  the text read since the last tag.
\<close>

function splitTagsFrom :: "jsstring \<Rightarrow> jsstring \<Rightarrow> jsstring list" where
  "splitTagsFrom txt [] = [txt]"
| "splitTagsFrom txt (c # r) =
     (case matchTag (c # r) of
        Some (tag, rest) \<Rightarrow> txt # tag # splitTagsFrom [] rest
      | None \<Rightarrow> splitTagsFrom (txt @ [c]) r)"
  by pat_completeness auto
termination
proof -
  have m: "matchTag s = Some (tag, rest) \<Longrightarrow> length rest < length s" for s tag rest
  proof -
    assume "matchTag s = Some (tag, rest)"
    then obtain c r where s: "s = c # r" and r: "rest = tl (dropWhile (\<lambda>x. x \<noteq> 62) r)"
      by (auto simp: matchTag_def Let_def split: list.splits if_splits)
    have "length rest \<le> length (dropWhile (\<lambda>x. x \<noteq> 62) r)" unfolding r by simp
    also have "\<dots> \<le> length r" by (rule length_dropWhile_le)
    finally show ?thesis using s by simp
  qed
  show ?thesis
    by (relation "measure (\<lambda>(txt, s). length s)") (auto dest: m)
qed

definition splitTags :: "jsstring \<Rightarrow> jsstring list" where
  "splitTags markup = splitTagsFrom [] markup"

text \<open>The callback of \<open>replace\<close>: the span around a match that the table knows.\<close>

definition wrapMatch ::
  "(jsstring \<Rightarrow> (jsstring \<times> jsstring) option) \<Rightarrow> (jsstring \<Rightarrow> jsstring) \<Rightarrow> jsstring \<Rightarrow> jsstring"
where
  "wrapMatch infoByLower lc m =
     (case infoByLower (toLowerCase lc m) of
        None \<Rightarrow> m
      | Some (sl, so) \<Rightarrow>
          js ''<span class=\"def-term\" data-slug=\"'' @ sl @ js ''\" data-def-source=\"'' @ so
            @ js ''\">'' @ m @ js ''</span>'')"

text \<open>
  \<open>termDefs.filter(d => d.term && d.slug).sort((a, b) => b.term.length - a.term.length)\<close>:
  the sort is stable.
\<close>

definition sortedTerms :: "TermDef list \<Rightarrow> TermDef list" where
  "sortedTerms termDefs =
     sort_key (\<lambda>d. - int (length (termText d)))
       (filter (\<lambda>d. termText d \<noteq> [] \<and> slug d \<noteq> []) termDefs)"

text \<open>\<open>new Map(terms.map(...))\<close>: a later entry with the same key replaces an earlier one.\<close>

definition infoByLower ::
  "(jsstring \<Rightarrow> jsstring) \<Rightarrow> TermDef list \<Rightarrow> jsstring \<Rightarrow> (jsstring \<times> jsstring) option" where
  "infoByLower lc terms =
     map_of (rev (map (\<lambda>t. (toLowerCase lc (termText t), (slug t, source t))) terms))"

text \<open>The function \<open>annotate\<close> that \<open>buildTermAnnotator\<close> returns.\<close>

definition annotate ::
  "(nat \<Rightarrow> nat) \<Rightarrow> item list list \<Rightarrow> (jsstring \<Rightarrow> jsstring) \<Rightarrow> jsstring \<Rightarrow> jsstring" where
  "annotate uc alts cb markup =
     concat (map (\<lambda>(i, part). if i mod 2 = 1 then part else replaceFrom uc alts cb None part)
               (enumerate 0 (splitTags markup)))"

definition buildTermAnnotator ::
  "(jsstring \<Rightarrow> jsstring) \<Rightarrow> (nat \<Rightarrow> nat) \<Rightarrow> TermDef list \<Rightarrow> jsstring \<Rightarrow> jsstring" where
  "buildTermAnnotator lc uc termDefs markup =
     (let terms = sortedTerms termDefs in
      if terms = [] then markup
      else annotate uc (map (\<lambda>t. termItems (termText t)) terms)
             (wrapMatch (infoByLower lc terms) lc) markup)"

text \<open>
  The alternation of texts and tags: \<open>interleave [x0, x1, ..., xn] [t1, ..., tn]\<close> is
  \<open>x0 t1 x1 ... tn xn\<close>.
\<close>

fun interleave :: "jsstring list \<Rightarrow> jsstring list \<Rightarrow> jsstring" where
  "interleave [] tags = []"
| "interleave (x # xs) [] = x"
| "interleave (x # xs) (t # ts) = x @ t @ interleave xs ts"

definition isTag :: "jsstring \<Rightarrow> bool" where
  "isTag t = (\<exists>body. t = 60 # body @ [62] \<and> body \<noteq> [] \<and> 62 \<notin> set body)"

definition hasTag :: "jsstring \<Rightarrow> bool" where
  "hasTag x = (\<exists>pre t post. x = pre @ t @ post \<and> isTag t)"

text \<open>The span that the annotator writes around a match.\<close>

definition defSpan :: "jsstring \<Rightarrow> jsstring \<Rightarrow> jsstring \<Rightarrow> jsstring" where
  "defSpan sl so m =
     js ''<span class=\"def-term\" data-slug=\"'' @ sl @ js ''\" data-def-source=\"'' @ so
       @ js ''\">'' @ m @ js ''</span>''"

text \<open>Definition records for the examples.\<close>

definition mkTermDef :: "string \<Rightarrow> string \<Rightarrow> string \<Rightarrow> TermDef" where
  "mkTermDef t sl so = \<lparr>termText = js t, slug = js sl, source = js so\<rparr>"

text \<open>The elements at the even and at the odd positions of a list.\<close>

fun evens :: "'a list \<Rightarrow> 'a list" where
  "evens [] = []"
| "evens [x] = [x]"
| "evens (x # y # r) = x # evens r"

fun odds :: "'a list \<Rightarrow> 'a list" where
  "odds [] = []"
| "odds [x] = []"
| "odds (x # y # r) = y # odds r"

text \<open>What the annotator does to a text between tags.\<close>

definition rewriteText ::
  "(jsstring \<Rightarrow> jsstring) \<Rightarrow> (nat \<Rightarrow> nat) \<Rightarrow> TermDef list \<Rightarrow> jsstring \<Rightarrow> jsstring" where
  "rewriteText lc uc termDefs x =
     (let terms = sortedTerms termDefs in
      if terms = [] then x
      else replaceFrom uc (map (\<lambda>t. termItems (termText t)) terms)
             (wrapMatch (infoByLower lc terms) lc) None x)"

text \<open>The scan of the annotator, going on behind a character \<open>c\<close>.\<close>

definition rewriteAfter ::
  "(jsstring \<Rightarrow> jsstring) \<Rightarrow> (nat \<Rightarrow> nat) \<Rightarrow> TermDef list \<Rightarrow> nat \<Rightarrow> jsstring \<Rightarrow> jsstring"
where
  "rewriteAfter lc uc termDefs c x =
     replaceFrom uc (map (\<lambda>t. termItems (termText t)) (sortedTerms termDefs))
       (wrapMatch (infoByLower lc (sortedTerms termDefs)) lc) (Some c) x"

text \<open>No tag starts inside \<open>acc\<close> when \<open>s\<close> follows it.\<close>

definition noTagFrom :: "jsstring \<Rightarrow> jsstring \<Rightarrow> bool" where
  "noTagFrom acc s = (\<forall>pre t post. acc @ s = pre @ t @ post \<and> length pre < length acc \<longrightarrow> \<not> isTag t)"

text \<open>
  The scan of \<open>replace\<close> over the first \<open>k\<close> characters of the input: the output for
  them, when the scan comes to stand behind exactly \<open>k\<close> characters, and nothing when a
  match reaches over that position.
\<close>

function scanPrefix ::
  "(nat \<Rightarrow> nat) \<Rightarrow> item list list \<Rightarrow> (jsstring \<Rightarrow> jsstring) \<Rightarrow> nat option \<Rightarrow> jsstring \<Rightarrow> nat
     \<Rightarrow> jsstring option"
where
  "scanPrefix uc alts cb prev s 0 = Some []"
| "scanPrefix uc alts cb prev [] (Suc k) = None"
| "scanPrefix uc alts cb prev (c # r) (Suc k) =
     (case matchAt uc alts prev (c # r) of
        None \<Rightarrow> map_option ((#) c) (scanPrefix uc alts cb (Some c) r k)
      | Some (m, rest) \<Rightarrow>
          if m = [] then
            map_option (\<lambda>out. cb m @ c # out) (scanPrefix uc alts cb (Some c) r k)
          else if length m \<le> Suc k then
            map_option (\<lambda>out. cb m @ out)
              (scanPrefix uc alts cb (Some (last m)) rest (Suc k - length m))
          else None)"
  by pat_completeness auto
termination
  by (relation "measure (\<lambda>(uc, alts, cb, prev, s, k). k)") auto

definition annotatedPrefix ::
  "(jsstring \<Rightarrow> jsstring) \<Rightarrow> (nat \<Rightarrow> nat) \<Rightarrow> TermDef list \<Rightarrow> jsstring \<Rightarrow> nat \<Rightarrow> jsstring option"
where
  "annotatedPrefix lc uc termDefs x k =
     scanPrefix uc (map (\<lambda>t. termItems (termText t)) (sortedTerms termDefs))
       (wrapMatch (infoByLower lc (sortedTerms termDefs)) lc) None x k"

text \<open>
  Two texts of the same length whose characters are equal under the \<open>i\<close> flag, one by
  one.
\<close>

definition sameLetters :: "(nat \<Rightarrow> nat) \<Rightarrow> jsstring \<Rightarrow> jsstring \<Rightarrow> bool" where
  "sameLetters uc m t = list_all2 (\<lambda>x c. canonicalize uc x = canonicalize uc c) m t"

text \<open>
  What is used of the upper-case mapping of the host: from 128 on, it maps a white space
  character to itself and no other character to a white space character. The Unicode
  tables are so: white space has no case.
\<close>

definition caseKeepsSpace :: "(nat \<Rightarrow> nat) \<Rightarrow> bool" where
  "caseKeepsSpace uc = (\<forall>x. 128 \<le> x \<longrightarrow> isWhiteSpace x \<or> isWhiteSpace (uc x) \<longrightarrow> uc x = x)"

text \<open>The pattern \<open>\b(t)\b\<close> of the single term \<open>t\<close> matches at the start of \<open>s\<close>.\<close>

definition termMatchesAt :: "(nat \<Rightarrow> nat) \<Rightarrow> jsstring \<Rightarrow> nat option \<Rightarrow> jsstring \<Rightarrow> bool" where
  "termMatchesAt uc t prev s = (matchAt uc [termItems t] prev s \<noteq> None)"

section \<open>Properties of the address codec\<close>

lemma js_simps:
  "js ''/s'' = [47, 115]" "js ''/def/'' = [47, 100, 101, 102, 47]"
  "js ''def/'' = [100, 101, 102, 47]"
  "js ''#'' = [35]" "js ''#t'' = [35, 116]" "js ''/'' = [47]"
  "js ''section/'' = [115, 101, 99, 116, 105, 111, 110, 47]"
  "js ''chapter/'' = [99, 104, 97, 112, 116, 101, 114, 47]"
  "js ''#section/'' = [35, 115, 101, 99, 116, 105, 111, 110, 47]"
  "js ''#chapter/'' = [35, 99, 104, 97, 112, 116, 101, 114, 47]"
  by (simp_all add: js_def)

lemma startsWith_iff: "startsWith s p \<longleftrightarrow> (\<exists>r. s = p @ r)"
  unfolding startsWith_def by (metis append_eq_conv_conj append_take_drop_id)

lemma takeWhile_stop:
  "\<forall>x\<in>set xs. P x \<Longrightarrow> ys = [] \<or> \<not> P (hd ys) \<Longrightarrow> takeWhile P (xs @ ys) = xs"
  by (induction xs) (auto simp: takeWhile_eq_Nil_iff)

lemma dropWhile_stop:
  "\<forall>x\<in>set xs. P x \<Longrightarrow> ys = [] \<or> \<not> P (hd ys) \<Longrightarrow> dropWhile P (xs @ ys) = ys"
  by (induction xs) (auto simp: dropWhile_eq_self_iff)

text \<open>An identifier is a non-empty run of digits followed by a run of capitals.\<close>

lemma isIdent_split:
  assumes "isIdent t"
  obtains ds us where "t = ds @ us" "ds \<noteq> []"
    "\<forall>x\<in>set ds. isDigit x" "\<forall>x\<in>set us. isUpper x"
proof -
  let ?ds = "takeWhile isDigit t" and ?r1 = "dropWhile isDigit t"
  from assms have a: "?ds \<noteq> []" and c: "dropWhile isUpper ?r1 = []"
    by (auto simp: isIdent_def matchNum_def Let_def split: if_splits)
  from c have "\<forall>x\<in>set ?r1. isUpper x" by (simp add: dropWhile_eq_Nil_conv)
  moreover have "\<forall>x\<in>set ?ds. isDigit x" by (auto dest: set_takeWhileD)
  moreover have "t = ?ds @ ?r1" by simp
  ultimately show ?thesis using a that by blast
qed

lemma digit_not_upper: "isUpper x \<Longrightarrow> \<not> isDigit x"
  by (auto simp: isUpper_def isDigit_def)

lemma separators_not_ident:
  "\<not> isDigit 47" "\<not> isUpper 47" "\<not> isDigit 40" "\<not> isUpper 40"
  by (simp_all add: isDigit_def isUpper_def)

text \<open>The greedy identifier pattern reads back an identifier that a separator follows.\<close>

lemma matchNum_ident_append:
  assumes "isIdent t" and "r = [] \<or> (\<not> isDigit (hd r) \<and> \<not> isUpper (hd r))"
  shows "matchNum (t @ r) = Some (t, r)"
proof -
  from assms(1) obtain ds us where t: "t = ds @ us" and ne: "ds \<noteq> []"
    and d: "\<forall>x\<in>set ds. isDigit x" and u: "\<forall>x\<in>set us. isUpper x"
    by (rule isIdent_split)
  have stop: "us @ r = [] \<or> \<not> isDigit (hd (us @ r))"
    using u assms(2) by (cases us) (auto dest: digit_not_upper)
  have 1: "takeWhile isDigit (ds @ us @ r) = ds" using d stop by (rule takeWhile_stop)
  have 2: "dropWhile isDigit (ds @ us @ r) = us @ r" using d stop by (rule dropWhile_stop)
  have 3: "takeWhile isUpper (us @ r) = us" using u assms(2) by (intro takeWhile_stop) auto
  have 4: "dropWhile isUpper (us @ r) = r" using u assms(2) by (intro dropWhile_stop) auto
  show ?thesis using ne by (simp add: matchNum_def t 1 2 3 4)
qed

lemma matchTitleSection_encode:
  assumes "isIdent t" "isIdent s" "r = [] \<or> hd r = 47 \<or> hd r = 40"
  shows "matchTitleSection (116 # t @ [47, 115] @ s @ r) = Some (t, s, r)"
proof -
  have 1: "matchNum (t @ ([47, 115] @ s @ r)) = Some (t, [47, 115] @ s @ r)"
    using assms(1) by (rule matchNum_ident_append) (simp add: separators_not_ident)
  have 2: "matchNum (s @ r) = Some (s, r)"
    using assms(2)
    by (rule matchNum_ident_append) (use assms(3) in \<open>auto simp: separators_not_ident\<close>)
  show ?thesis using 1 2
    by (simp add: matchTitleSection_def matchTitlePrefix_def startsWith_def js_simps)
qed

lemma roundtrip_uscode:
  assumes "wf_view_uscode v"
  shows "parseHash_uscode (viewToHash_uscode v) = v"
proof (cases v)
  case HomeU
  then show ?thesis
    by (simp add: parseHash_uscode_def viewToHash_uscode_def stripHashPrefix_def js_simps)
next
  case (TitleU t)
  with assms have id: "isIdent t" by simp
  then have m: "matchNum (t @ []) = Some (t, [])"
    by (intro matchNum_ident_append) simp_all
  have ne: "t \<noteq> []" using id by (auto simp: isIdent_def matchNum_def)
  have ts: "matchTitleSection (116 # t) = None"
    using m by (simp add: matchTitleSection_def matchTitlePrefix_def startsWith_def js_simps)
  show ?thesis using m ts ne TitleU
    by (simp add: parseHash_uscode_def viewToHash_uscode_def stripHashPrefix_def js_simps
        defMatch_def secParenMatch_def secMatch_def titleMatch_def matchTitlePrefix_def)
next
  case (SectionU t s a)
  show ?thesis
  proof (cases a)
    case None
    with SectionU assms have "isIdent t" "isIdent s" by simp_all
    then have "matchTitleSection (116 # t @ [47, 115] @ s @ []) = Some (t, s, [])"
      by (intro matchTitleSection_encode) simp_all
    then show ?thesis using SectionU None
      by (simp add: parseHash_uscode_def viewToHash_uscode_def stripHashPrefix_def js_simps
          defMatch_def secParenMatch_def secMatch_def startsWith_def)
  next
    case (Some p)
    with SectionU assms have id: "isIdent t" "isIdent s"
      and an: "isParenAnchor p \<or> isDefAnchor p" by simp_all
    from an show ?thesis
    proof
      assume "isParenAnchor p"
      then obtain r where p: "p = 40 # r" and r: "dotPlusToEnd r"
        by (auto simp: isParenAnchor_def split: list.splits)
      have "matchTitleSection (116 # t @ [47, 115] @ s @ p) = Some (t, s, p)"
        using id by (intro matchTitleSection_encode) (simp_all add: p)
      then show ?thesis using SectionU Some p r
        by (simp add: parseHash_uscode_def viewToHash_uscode_def stripHashPrefix_def js_simps
            defMatch_def secParenMatch_def secMatch_def startsWith_def)
    next
      assume "isDefAnchor p"
      then obtain g where p: "p = [100, 101, 102, 47] @ g" and r: "dotPlusToEnd g"
        by (auto simp: isDefAnchor_def startsWith_iff js_simps)
      have "matchTitleSection (116 # t @ [47, 115] @ s @ (47 # p)) = Some (t, s, 47 # p)"
        using id by (intro matchTitleSection_encode) simp_all
      then show ?thesis using SectionU Some r p
        by (simp add: parseHash_uscode_def viewToHash_uscode_def stripHashPrefix_def js_simps
            defMatch_def secParenMatch_def secMatch_def startsWith_def)
    qed
  qed
qed

lemma isIdent_no_paren: "isIdent s \<Longrightarrow> 40 \<notin> set s"
  by (erule isIdent_split) (auto simp: isDigit_def isUpper_def)

text \<open>
  The Title 17 decoder returns the section number whole exactly when it finds neither a
  definition anchor nor a parenthesis behind the first character.
\<close>

lemma parseHash_section:
  "parseHash (js ''#section/'' @ s) =
     (case defMatch_section s of
        Some (n, g) \<Rightarrow> Section n (Some (js ''def/'' @ g))
      | None \<Rightarrow>
          if 0 < indexOf 40 s
          then Section (take (nat (indexOf 40 s)) s) (Some (drop (nat (indexOf 40 s)) s))
          else Section s None)"
  by (simp add: parseHash_def stripHashPrefix_def js_simps startsWith_def Let_def
      split: option.splits)

lemma indexOf_take_proper: "0 < indexOf 40 s \<Longrightarrow> take (nat (indexOf 40 s)) s \<noteq> s"
proof
  assume a: "0 < indexOf 40 s" and e: "take (nat (indexOf 40 s)) s = s"
  from a have m: "40 \<in> set s" and n: "indexOf 40 s = int (length (takeWhile (\<lambda>x. x \<noteq> 40) s))"
    by (auto simp: indexOf_def split: if_splits)
  from m have "length (takeWhile (\<lambda>x. x \<noteq> 40) s) < length s"
    by (induction s) auto
  moreover from e have "length s \<le> nat (indexOf 40 s)"
    by (metis length_take min.cobounded2)
  ultimately show False using n by simp
qed

lemma defMatch_section_proper: "defMatch_section s = Some (n, g) \<Longrightarrow> n \<noteq> s"
proof
  assume a: "defMatch_section s = Some (n, g)" and "n = s"
  then obtain r where m: "matchNum s = Some (s, r)" and r: "startsWith r (js ''/def/'')"
    by (auto simp: defMatch_section_def split: option.splits if_splits)
  from m have "s = takeWhile isDigit s @ takeWhile isUpper (dropWhile isDigit s)"
    and "r = dropWhile isUpper (dropWhile isDigit s)"
    by (auto simp: matchNum_def Let_def split: if_splits)
  then have "s = s @ r" by (metis append.assoc takeWhile_dropWhile_id)
  then have "r = []" by simp
  with r show False by (simp add: startsWith_def js_simps)
qed

lemma roundtrip_title17: "parseHash (viewToHash w) = w \<longleftrightarrow> wf_view w"
proof (cases w)
  case Home
  then show ?thesis by (simp add: parseHash_def viewToHash_def stripHashPrefix_def js_simps)
next
  case (Chapter c)
  then show ?thesis
    by (simp add: parseHash_def viewToHash_def stripHashPrefix_def js_simps startsWith_def)
next
  case (Section s a)
  show ?thesis
  proof (cases a)
    case None
    show ?thesis
      by (auto simp: Section None viewToHash_def parseHash_section split: option.splits if_splits)
  next
    case (Some p)
    show ?thesis
      using indexOf_take_proper[of s] defMatch_section_proper[of s]
      by (auto simp: Section Some viewToHash_def parseHash_section split: option.splits if_splits)
  qed
qed

section \<open>Properties of the structural path builder\<close>

lemma buildLoop_index_bounds:
  "(j, m) \<in> set (buildLoop sec i stack bs) \<Longrightarrow> i \<le> j \<and> j < i + length bs"
proof (induction bs arbitrary: i stack)
  case Nil
  then show ?case by simp
next
  case (Cons b bs)
  then show ?case
    by (fastforce simp: Let_def split: if_splits option.splits)
qed

lemma buildLoop_Suc:
  "buildLoop sec (Suc i) stack bs = map (\<lambda>(j, m). (Suc j, m)) (buildLoop sec i stack bs)"
  by (induction bs arbitrary: i stack) (auto simp: Let_def split: option.splits)

lemma buildLoop_skip:
  assumes "type b \<notin> STRUCTURAL_TYPES \<or> splitBlockHtml (html b) = None"
  shows "buildLoop sec i stack (xs @ b # ys)
         = map (shiftFrom (i + length xs)) (buildLoop sec i stack (xs @ ys))"
proof (induction xs arbitrary: i stack)
  case Nil
  have "buildLoop sec i stack (b # ys) = buildLoop sec (Suc i) stack ys"
    using assms by auto
  also have "\<dots> = map (\<lambda>(j, m). (Suc j, m)) (buildLoop sec i stack ys)"
    by (rule buildLoop_Suc)
  also have "\<dots> = map (shiftFrom i) (buildLoop sec i stack ys)"
    by (rule map_cong) (auto simp: shiftFrom_def dest: buildLoop_index_bounds)
  finally show ?case by simp
next
  case (Cons x xs)
  have *: "i + length (x # xs) = Suc i + length xs" by simp
  show ?case
    unfolding * by (simp add: Cons.IH Let_def shiftFrom_def split: option.splits)
qed

lemma map_of_buildLoop_None:
  assumes "type b \<notin> STRUCTURAL_TYPES \<or> splitBlockHtml (html b) = None"
  shows "map_of (buildLoop sec i stack (xs @ b # ys)) (i + length xs) = None"
proof -
  have "i + length xs \<notin> fst ` set (buildLoop sec i stack (xs @ b # ys))"
    unfolding buildLoop_skip[OF assms]
    by (auto simp: shiftFrom_def split: if_splits)
  then show ?thesis by (simp add: map_of_eq_None_iff)
qed

lemma splitBlockHtml_Some_iff:
  "splitBlockHtml h = Some (tok, rest) \<longleftrightarrow> (60 \<notin> set tok \<and> h = spanOpen @ tok @ spanClose @ rest)"
proof
  assume "splitBlockHtml h = Some (tok, rest)"
  then show "60 \<notin> set tok \<and> h = spanOpen @ tok @ spanClose @ rest"
    apply (auto simp: splitBlockHtml_def Let_def startsWith_iff split: if_splits dest: set_takeWhileD)
    by (metis append_eq_conv_conj takeWhile_dropWhile_id)
next
  assume a: "60 \<notin> set tok \<and> h = spanOpen @ tok @ spanClose @ rest"
  have c: "spanClose @ rest \<noteq> [] \<and> hd (spanClose @ rest) = 60" by (simp add: spanClose_def js_def)
  have 1: "takeWhile (\<lambda>c. c \<noteq> 60) (tok @ spanClose @ rest) = tok"
    using a c by (intro takeWhile_stop) auto
  have 2: "dropWhile (\<lambda>c. c \<noteq> 60) (tok @ spanClose @ rest) = spanClose @ rest"
    using a c by (intro dropWhile_stop) auto
  show "splitBlockHtml h = Some (tok, rest)"
    using a by (simp add: splitBlockHtml_def startsWith_iff 1 2)
qed

lemma splitBlockHtml_None_iff:
  "splitBlockHtml h = None \<longleftrightarrow> \<not> (\<exists>tok rest. 60 \<notin> set tok \<and> h = spanOpen @ tok @ spanClose @ rest)"
  using splitBlockHtml_Some_iff[of h] by (cases "splitBlockHtml h") auto

lemma popStack_contiguous:
  assumes "map fst stack = map int [0..<n]" "0 \<le> d" "d \<le> int n"
  shows "popStack d stack = take (nat d) stack"
proof -
  let ?k = "nat d"
  have len: "length stack = n" using assms(1) by (metis length_map length_upt diff_zero)
  have fsts: "\<And>i. i < n \<Longrightarrow> fst (stack ! i) = int i"
    using assms(1) len by (metis nth_map nth_upt add_0 length_map)
  have hi: "\<forall>e\<in>set (rev (drop ?k stack)). d \<le> fst e"
  proof
    fix e assume "e \<in> set (rev (drop ?k stack))"
    then obtain i where "i < n - ?k" "e = stack ! (?k + i)"
      using len by (auto simp: in_set_conv_nth)
    then show "d \<le> fst e" using fsts[of "?k + i"] assms(2) by auto
  qed
  have lo: "rev (take ?k stack) = [] \<or> \<not> d \<le> fst (hd (rev (take ?k stack)))"
  proof (cases "?k = 0")
    case True then show ?thesis by simp
  next
    case False
    then have "take ?k stack \<noteq> []" using assms len by auto
    then have "hd (rev (take ?k stack)) = last (take ?k stack)" by (simp add: hd_rev)
    also have "\<dots> = stack ! (?k - 1)"
    proof -
      have kl: "?k \<le> length stack" using assms len by auto
      then have "length (take ?k stack) = ?k" by simp
      then have "last (take ?k stack) = take ?k stack ! (?k - 1)"
        using False by (metis last_conv_nth list.size(3))
      also have "\<dots> = stack ! (?k - 1)" using False by simp
      finally show ?thesis .
    qed
    finally show ?thesis using fsts[of "?k - 1"] False assms by auto
  qed
  have "rev stack = rev (drop ?k stack) @ rev (take ?k stack)"
    by (metis append_take_drop_id rev_append)
  then have "dropWhile (\<lambda>e. d \<le> fst e) (rev stack) = rev (take ?k stack)"
    using dropWhile_stop[OF hi lo] by simp
  then show ?thesis by (simp add: popStack_def)
qed

lemma buildLoop_contiguous_tokens:
  assumes "map fst stack = map int [0..<n]"
    and "contiguous (int n - 1) (map indent (filter hasDesignator bs))"
    and "(j, m) \<in> set (buildLoop sec i stack bs)"
  shows "\<exists>toks. length toks = nat (indent (bs ! (j - i))) + 1 \<and> path m = concat toks
           \<and> last toks = designator (bs ! (j - i))
           \<and> set toks \<subseteq> snd ` set stack \<union> designator ` set (filter hasDesignator bs)"
  using assms
proof (induction bs arbitrary: i stack n)
  case Nil
  then show ?case by simp
next
  case (Cons b bs)
  show ?case
  proof (cases "hasDesignator b")
    case False
    then have eq: "buildLoop sec i stack (b # bs) = buildLoop sec (Suc i) stack bs"
      by (cases "splitBlockHtml (html b)") (auto simp: hasDesignator_def)
    with Cons.prems have mem: "(j, m) \<in> set (buildLoop sec (Suc i) stack bs)" by simp
    then have "Suc i \<le> j" by (auto dest: buildLoop_index_bounds)
    then have idx: "(b # bs) ! (j - i) = bs ! (j - Suc i)"
      by (simp add: Suc_diff_le flip: Suc_diff_Suc) 
    from Cons.IH[OF Cons.prems(1) _ mem] Cons.prems(2) False
    show ?thesis unfolding idx by auto
  next
    case True
    then obtain numText restHtml where sp: "splitBlockHtml (html b) = Some (numText, restHtml)"
      and st: "type b \<in> STRUCTURAL_TYPES"
      by (auto simp: hasDesignator_def)
    let ?d = "indent b"
    have des: "designator b = trim numText" by (simp add: designator_def sp)
    from Cons.prems(2) True have d0: "0 \<le> ?d" and dn: "?d \<le> int n"
      and rest: "contiguous ?d (map indent (filter hasDesignator bs))" by auto
    let ?stack' = "take (nat ?d) stack @ [(?d, trim numText)]"
    have pop: "popStack ?d stack = take (nat ?d) stack"
      using Cons.prems(1) d0 dn by (rule popStack_contiguous)
    have len: "length stack = n" using Cons.prems(1) by (metis length_map length_upt diff_zero)
    have kn: "nat ?d \<le> n" using d0 dn by simp
    have inv': "map fst ?stack' = map int [0..<Suc (nat ?d)]"
      using Cons.prems(1) d0 kn by (simp add: take_map[symmetric]) (simp add: take_map take_upt)
    have eq: "buildLoop sec i stack (b # bs)
      = (i, \<lparr>path = concat (map snd ?stack'), anchorId = js ''p-'' @ sec @ concat (map snd ?stack')\<rparr>)
          # buildLoop sec (Suc i) ?stack' bs"
      using st sp pop by (simp add: Let_def)
    from Cons.prems(3) eq consider
      (here) "j = i" "m = \<lparr>path = concat (map snd ?stack'), anchorId = js ''p-'' @ sec @ concat (map snd ?stack')\<rparr>"
      | (later) "(j, m) \<in> set (buildLoop sec (Suc i) ?stack' bs)" by auto
    then show ?thesis
    proof cases
      case here
      have l: "length (map snd ?stack') = nat ?d + 1" using len kn by simp
      have "set (map snd (take (nat ?d) stack)) \<subseteq> snd ` set stack"
        by (auto dest: in_set_takeD)
      then show ?thesis using here l des True
        by (intro exI[of _ "map snd ?stack'"]) auto
    next
      case later
      then have "Suc i \<le> j" by (auto dest: buildLoop_index_bounds)
      then have idx: "(b # bs) ! (j - i) = bs ! (j - Suc i)"
        by (simp add: Suc_diff_le flip: Suc_diff_Suc)
      have c': "contiguous (int (Suc (nat ?d)) - 1) (map indent (filter hasDesignator bs))"
        using rest d0 by simp
      from Cons.IH[OF inv' c' later] obtain toks where
        t: "length toks = nat (indent (bs ! (j - Suc i))) + 1" "path m = concat toks"
           "last toks = designator (bs ! (j - Suc i))"
           "set toks \<subseteq> snd ` set ?stack' \<union> designator ` set (filter hasDesignator bs)"
        by blast
      have a: "snd ` set ?stack' \<subseteq> snd ` set stack \<union> {designator b}"
        using des by (auto dest: in_set_takeD)
      have b: "designator ` set (filter hasDesignator (b # bs))
          = insert (designator b) (designator ` set (filter hasDesignator bs))"
        using True by simp
      have sub: "set toks \<subseteq> snd ` set stack \<union> designator ` set (filter hasDesignator (b # bs))"
        unfolding b using t(4) a by blast
      show ?thesis unfolding idx using t(1,2,3) sub by blast
    qed
  qed
qed

lemma buildLoop_anchorId:
  "(j, m) \<in> set (buildLoop sec i stack bs) \<Longrightarrow> anchorId m = js ''p-'' @ sec @ path m"
  by (induction bs arbitrary: i stack) (auto simp: Let_def split: if_splits option.splits)

lemma buildLoop_ids_distinct_iff:
  "distinct (map (anchorId \<circ> snd) (buildLoop sec i stack bs))
     \<longleftrightarrow> distinct (map (path \<circ> snd) (buildLoop sec i stack bs))"
proof -
  let ?pre = "js ''p-'' @ sec"
  have eq: "map (anchorId \<circ> snd) (buildLoop sec i stack bs)
      = map ((@) ?pre) (map (path \<circ> snd) (buildLoop sec i stack bs))"
    by (auto simp: buildLoop_anchorId)
  have "distinct (map ((@) ?pre) ys) = distinct ys" for ys :: "jsstring list"
    by (simp add: distinct_map inj_on_def)
  then show ?thesis unfolding eq .
qed

text \<open>
  The stack holds the ancestors of the block just read, so a path is the designators of
  the ancestors and of the block, written one behind the other.
\<close>

lemma buildLoop_pathsFrom:
  "map (path \<circ> snd) (buildLoop sec i stack bs) = pathsFrom stack (designated bs)"
proof (induction bs arbitrary: i stack)
  case Nil
  then show ?case by (simp add: designated_def)
next
  case (Cons b bs)
  show ?case
  proof (cases "hasDesignator b")
    case False
    then have "buildLoop sec i stack (b # bs) = buildLoop sec (Suc i) stack bs"
      by (cases "splitBlockHtml (html b)") (auto simp: hasDesignator_def)
    then show ?thesis using False Cons.IH by (simp add: designated_def)
  next
    case True
    then obtain numText restHtml where sp: "splitBlockHtml (html b) = Some (numText, restHtml)"
      and st: "type b \<in> STRUCTURAL_TYPES"
      by (auto simp: hasDesignator_def)
    have des: "designator b = trim numText" by (simp add: designator_def sp)
    have d: "designated (b # bs) = (indent b, trim numText) # designated bs"
      using True des by (simp add: designated_def)
    show ?thesis unfolding d using st sp Cons.IH by (simp add: Let_def)
  qed
qed

lemma popStack_snoc:
  "popStack d (xs @ [e]) = (if d \<le> fst e then popStack d xs else xs @ [e])"
  by (simp add: popStack_def)

lemma dropWhile_dropWhile_weaker:
  "(\<And>x. Q x \<Longrightarrow> P x) \<Longrightarrow> dropWhile P (dropWhile Q xs) = dropWhile P xs"
  by (induction xs) auto

lemma popStack_popStack: "d \<le> d' \<Longrightarrow> popStack d (popStack d' stack) = popStack d stack"
  unfolding popStack_def
  by (simp add: dropWhile_dropWhile_weaker[where Q = "\<lambda>e. d' \<le> fst e"])

lemma stackAfter_Suc:
  "k < length ds \<Longrightarrow>
     stackAfter ds (Suc k) = popStack (fst (ds ! k)) (stackAfter ds k) @ [ds ! k]"
  by (simp add: stackAfter_def take_Suc_conv_app_nth)

lemma popStack_stackAfter:
  "k \<le> length ds \<Longrightarrow> popStack d (stackAfter ds k) = map ((!) ds) (anc ds d k)"
proof (induction k arbitrary: d)
  case 0
  then show ?case by (simp add: stackAfter_def popStack_def)
next
  case (Suc k)
  then have k: "k < length ds" and kl: "k \<le> length ds" by simp_all
  note ih = Suc.IH[OF kl]
  show ?case
  proof (cases "fst (ds ! k) < d")
    case True
    then show ?thesis by (simp add: stackAfter_Suc[OF k] popStack_snoc ih)
  next
    case False
    then have le: "d \<le> fst (ds ! k)" by simp
    have "popStack d (stackAfter ds (Suc k)) = popStack d (popStack (fst (ds ! k)) (stackAfter ds k))"
      using le by (simp add: stackAfter_Suc[OF k] popStack_snoc)
    also have "\<dots> = popStack d (stackAfter ds k)" using le by (rule popStack_popStack)
    finally show ?thesis using False by (simp add: ih)
  qed
qed

lemma stackAfter_anc:
  assumes "j < length ds"
  shows "stackAfter ds (Suc j) = map ((!) ds) (anc ds (fst (ds ! j)) j @ [j])"
  using assms by (simp add: stackAfter_Suc popStack_stackAfter)

lemma pathsFrom_foldl:
  "pathsFrom st es
     = map (\<lambda>k. concat (map snd (foldl (\<lambda>st e. popStack (fst e) st @ [e]) st (take (Suc k) es))))
         [0..<length es]"
proof (induction es arbitrary: st)
  case Nil
  then show ?case by simp
next
  case (Cons e es)
  have "[0..<length (e # es)] = 0 # map Suc [0..<length es]"
    by (metis length_Cons map_Suc_upt upt_conv_Cons zero_less_Suc)
  then show ?case by (simp add: Cons.IH Let_def comp_def del: upt_Suc)
qed

lemma pathsFrom_stackAfter:
  "pathsFrom [] ds = map (\<lambda>k. concat (map snd (stackAfter ds (Suc k)))) [0..<length ds]"
  unfolding stackAfter_def by (rule pathsFrom_foldl)

lemma anc_find:
  "anc ds d k =
     (case find (\<lambda>i. fst (ds ! i) < d) (rev [0..<k]) of
        None \<Rightarrow> []
      | Some p \<Rightarrow> anc ds (fst (ds ! p)) p @ [p])"
  by (induction k) auto

lemma parentOf_less: "parentOf ds j = Some p \<Longrightarrow> p < j"
proof -
  assume "parentOf ds j = Some p"
  then obtain i where "i < length (rev [0..<j])" "p = rev [0..<j] ! i"
    unfolding parentOf_def find_Some_iff by blast
  then have "p \<in> set (rev [0..<j])" by (metis nth_mem)
  then show ?thesis by simp
qed

lemma chainToks_parent:
  "chainToks ds j =
     (case parentOf ds j of None \<Rightarrow> [] | Some p \<Rightarrow> chainToks ds p) @ [snd (ds ! j)]"
  unfolding chainToks_def parentOf_def
  by (subst anc_find) (simp split: option.splits)

lemma anc_bound: "i \<in> set (anc ds d k) \<Longrightarrow> i < k"
  by (induction k arbitrary: d) (auto split: if_splits simp: less_Suc_eq)

lemma chainToks_subset:
  "j < length ds \<Longrightarrow> set (chainToks ds j) \<subseteq> set (map snd ds)"
proof -
  assume j: "j < length ds"
  have "i < length ds" if "i \<in> set (anc ds (fst (ds ! j)) j @ [j])" for i
    using that j by (auto dest: anc_bound)
  then have "snd (ds ! i) \<in> set (map snd ds)" if "i \<in> set (anc ds (fst (ds ! j)) j @ [j])" for i
    using that by (metis length_map nth_map nth_mem)
  then show ?thesis unfolding chainToks_def by auto
qed

lemma chainToks_inj:
  assumes sd: "siblingsDistinct ds"
  shows "i < length ds \<Longrightarrow> j < length ds \<Longrightarrow> chainToks ds i = chainToks ds j \<Longrightarrow> i = j"
proof (induction i arbitrary: j rule: less_induct)
  case (less i)
  let ?A = "\<lambda>k. case parentOf ds k of None \<Rightarrow> [] | Some p \<Rightarrow> chainToks ds p"
  from less.prems(3) have e: "?A i @ [snd (ds ! i)] = ?A j @ [snd (ds ! j)]"
    by (simp only: chainToks_parent[symmetric])
  then have a: "?A i = ?A j" and t: "snd (ds ! i) = snd (ds ! j)" by simp_all
  have ne: "chainToks ds p \<noteq> []" "[] \<noteq> chainToks ds p" for p
    by (simp_all add: chainToks_def)
  have par: "parentOf ds i = parentOf ds j"
  proof (cases "parentOf ds i")
    case None
    then show ?thesis using a ne by (cases "parentOf ds j") auto
  next
    case (Some p)
    then obtain q where q: "parentOf ds j = Some q" using a ne by (cases "parentOf ds j") auto
    from Some q a have c: "chainToks ds p = chainToks ds q" by simp
    have "p < i" using Some by (rule parentOf_less)
    moreover have "q < j" using q by (rule parentOf_less)
    ultimately have "p = q" using less.IH[of p q] less.prems(1,2) c by simp
    with Some q show ?thesis by simp
  qed
  show ?case
  proof (rule ccontr)
    assume "i \<noteq> j"
    then consider "i < j" | "j < i" by linarith
    then show False
    proof cases
      case 1
      with sd less.prems(2) par t show False unfolding siblingsDistinct_def by blast
    next
      case 2
      with sd less.prems(1) par t show False unfolding siblingsDistinct_def by metis
    qed
  qed
qed

lemma concat_prefixFree:
  assumes pf: "prefixFree T"
  shows "set xs \<subseteq> set T \<Longrightarrow> set ys \<subseteq> set T \<Longrightarrow> concat xs = concat ys \<Longrightarrow> xs = ys"
proof (induction xs arbitrary: ys)
  case Nil
  show ?case
  proof (cases ys)
    case Nil
    then show ?thesis by simp
  next
    case (Cons b ys')
    with Nil.prems have "b \<in> set T" "b = []" by auto
    with pf show ?thesis unfolding prefixFree_def by blast
  qed
next
  case (Cons a xs)
  from Cons.prems(1) have aT: "a \<in> set T" by simp
  with pf have ane: "a \<noteq> []" unfolding prefixFree_def by blast
  show ?case
  proof (cases ys)
    case Nil
    with Cons.prems(3) ane show ?thesis by simp
  next
    case ys: (Cons b ys')
    with Cons.prems(2) have bT: "b \<in> set T" by simp
    from Cons.prems(3) ys have e: "a @ concat xs = b @ concat ys'" by simp
    then have "startsWith b a \<or> startsWith a b"
      unfolding startsWith_iff by (auto simp: append_eq_append_conv2)
    then have ab: "a = b" using pf aT bT unfolding prefixFree_def by blast
    with e have "concat xs = concat ys'" by simp
    with Cons.IH[of ys'] Cons.prems(1,2) ys have "xs = ys'" by simp
    with ab ys show ?thesis by simp
  qed
qed

lemma paths_chainToks:
  "map (path \<circ> snd) (buildParaMetaMap content sectionNum)
     = map (\<lambda>j. concat (chainToks (designated content) j)) [0..<length (designated content)]"
proof -
  let ?ds = "designated content"
  have "map (path \<circ> snd) (buildParaMetaMap content sectionNum) = pathsFrom [] ?ds"
    unfolding buildParaMetaMap_def by (rule buildLoop_pathsFrom)
  also have "\<dots> = map (\<lambda>k. concat (map snd (stackAfter ?ds (Suc k)))) [0..<length ?ds]"
    by (rule pathsFrom_stackAfter)
  also have "\<dots> = map (\<lambda>j. concat (chainToks ?ds j)) [0..<length ?ds]"
    by (rule map_cong) (simp_all add: stackAfter_anc chainToks_def comp_def)
  finally show ?thesis .
qed

section \<open>Properties of the term annotator\<close>

lemma matchTag_Some:
  assumes "matchTag s = Some (tag, rest)"
  shows "s = tag @ rest \<and> isTag tag"
proof -
  from assms obtain r where s: "s = 60 # r"
    and b: "takeWhile (\<lambda>x. x \<noteq> 62) r \<noteq> []" and d: "dropWhile (\<lambda>x. x \<noteq> 62) r \<noteq> []"
    and tag: "tag = 60 # takeWhile (\<lambda>x. x \<noteq> 62) r @ [62]"
    and rest: "rest = tl (dropWhile (\<lambda>x. x \<noteq> 62) r)"
    by (auto simp: matchTag_def Let_def split: list.splits if_splits)
  from d have "hd (dropWhile (\<lambda>x. x \<noteq> 62) r) = 62"
    using hd_dropWhile[of "\<lambda>x. x \<noteq> 62" r] by simp
  with d have "dropWhile (\<lambda>x. x \<noteq> 62) r = 62 # rest"
    unfolding rest by (cases "dropWhile (\<lambda>x. x \<noteq> 62) r") auto
  then have "r = takeWhile (\<lambda>x. x \<noteq> 62) r @ 62 # rest"
    by (metis takeWhile_dropWhile_id)
  then have 1: "s = tag @ rest" unfolding s tag by simp
  have "62 \<notin> set (takeWhile (\<lambda>x. x \<noteq> 62) r)" by (auto dest: set_takeWhileD)
  then have "isTag tag" unfolding isTag_def tag using b by blast
  with 1 show ?thesis by simp
qed

lemma matchTag_isTag:
  assumes "isTag t"
  shows "matchTag (t @ post) = Some (t, post)"
proof -
  from assms obtain body where t: "t = 60 # body @ [62]" and ne: "body \<noteq> []"
    and no: "62 \<notin> set body" by (auto simp: isTag_def)
  have a: "\<forall>x\<in>set body. x \<noteq> 62" using no by auto
  have 1: "takeWhile (\<lambda>x. x \<noteq> 62) (body @ 62 # post) = body"
    using a by (intro takeWhile_stop) auto
  have 2: "dropWhile (\<lambda>x. x \<noteq> 62) (body @ 62 # post) = 62 # post"
    using a by (intro dropWhile_stop) auto
  show ?thesis using ne by (simp add: matchTag_def t 1 2)
qed

lemma noTagFrom_hasTag:
  assumes "noTagFrom acc s" shows "\<not> hasTag acc"
proof
  assume "hasTag acc"
  then obtain pre t post where x: "acc = pre @ t @ post" and t: "isTag t"
    by (auto simp: hasTag_def)
  from t have "t \<noteq> []" by (auto simp: isTag_def)
  then have "length pre < length acc" using x by simp
  moreover have "acc @ s = pre @ t @ (post @ s)" using x by simp
  ultimately show False using assms t unfolding noTagFrom_def by blast
qed

lemma noTagFrom_step:
  assumes "noTagFrom acc (c # r)" "matchTag (c # r) = None"
  shows "noTagFrom (acc @ [c]) r"
  unfolding noTagFrom_def
proof (intro allI impI notI, elim conjE)
  fix pre t post
  assume eq: "(acc @ [c]) @ r = pre @ t @ post" and len: "length pre < length (acc @ [c])"
    and t: "isTag t"
  show False
  proof (cases "length pre < length acc")
    case True
    with assms(1) eq t show False unfolding noTagFrom_def by auto
  next
    case False
    with len have l: "length pre = length acc" by simp
    from eq have "acc @ (c # r) = pre @ (t @ post)" by simp
    with l have "c # r = t @ post" by (simp add: append_eq_append_conv)
    with matchTag_isTag[OF t, of post] assms(2) show False by simp
  qed
qed

lemma splitTagsFrom_structure:
  "noTagFrom acc s \<Longrightarrow>
     acc @ s = interleave (evens (splitTagsFrom acc s)) (odds (splitTagsFrom acc s)) \<and>
     length (evens (splitTagsFrom acc s)) = length (odds (splitTagsFrom acc s)) + 1 \<and>
     (\<forall>t \<in> set (odds (splitTagsFrom acc s)). isTag t) \<and>
     (\<forall>x \<in> set (evens (splitTagsFrom acc s)). \<not> hasTag x)"
proof (induction acc s rule: splitTagsFrom.induct)
  case (1 acc)
  then show ?case using noTagFrom_hasTag by simp
next
  case (2 acc c r)
  show ?case
  proof (cases "matchTag (c # r)")
    case None
    have n: "noTagFrom (acc @ [c]) r" using "2.prems" None by (rule noTagFrom_step)
    from "2.IH"(1)[OF None n] show ?thesis using None by simp
  next
    case (Some a)
    obtain tag rest where a: "a = (tag, rest)" by (cases a)
    from matchTag_Some[OF Some[unfolded a]] have s: "c # r = tag @ rest" and t: "isTag tag"
      by simp_all
    have n: "noTagFrom [] rest" by (simp add: noTagFrom_def)
    have eq: "splitTagsFrom acc (c # r) = acc # tag # splitTagsFrom [] rest"
      using Some a by simp
    note ih = "2.IH"(2)[OF Some a[symmetric] n]
    have h: "\<not> hasTag acc" by (rule noTagFrom_hasTag[OF "2.prems"])
    let ?X = "splitTagsFrom [] rest"
    have "acc @ tag @ rest = interleave (evens (acc # tag # ?X)) (odds (acc # tag # ?X))"
      using ih by simp
    then have 1: "acc @ c # r = interleave (evens (acc # tag # ?X)) (odds (acc # tag # ?X))"
      unfolding s .
    show ?thesis unfolding eq using 1 ih t h by simp
  qed
qed

lemma concat_enumerate_interleave:
  "even n \<Longrightarrow>
   concat (map (\<lambda>(i, part). if i mod 2 = 1 then part else f part) (enumerate n parts))
     = interleave (map f (evens parts)) (odds parts)"
proof (induction parts arbitrary: n rule: evens.induct)
  case 1
  then show ?case by simp
next
  case (2 x)
  then show ?case by (simp add: even_iff_mod_2_eq_zero)
next
  case (3 x y r)
  from 3 have e: "even (Suc (Suc n))" by simp
  have o: "Suc n mod 2 = 1" using 3(2) by presburger
  have z: "n mod 2 \<noteq> 1" using 3(2) by presburger
  show ?case using "3.IH"[OF e] o z by simp
qed

lemma splitTags_structure:
  "markup = interleave (evens (splitTags markup)) (odds (splitTags markup)) \<and>
   length (evens (splitTags markup)) = length (odds (splitTags markup)) + 1 \<and>
   (\<forall>t \<in> set (odds (splitTags markup)). isTag t) \<and>
   (\<forall>x \<in> set (evens (splitTags markup)). \<not> hasTag x)"
proof -
  have "noTagFrom [] markup" by (simp add: noTagFrom_def)
  from splitTagsFrom_structure[OF this] show ?thesis by (simp add: splitTags_def)
qed

lemma annotate_interleave:
  "annotate uc alts cb markup
     = interleave (map (replaceFrom uc alts cb None) (evens (splitTags markup)))
         (odds (splitTags markup))"
  unfolding annotate_def by (rule concat_enumerate_interleave) simp

lemma buildTermAnnotator_interleave:
  "buildTermAnnotator lc uc termDefs markup
     = interleave (map (rewriteText lc uc termDefs) (evens (splitTags markup)))
         (odds (splitTags markup))"
proof (cases "sortedTerms termDefs = []")
  case True
  then have "map (rewriteText lc uc termDefs) (evens (splitTags markup)) = evens (splitTags markup)"
    by (intro map_idI) (simp add: rewriteText_def)
  then show ?thesis using True splitTags_structure[of markup]
    by (simp add: buildTermAnnotator_def Let_def)
next
  case False
  then have "rewriteText lc uc termDefs
      = replaceFrom uc (map (\<lambda>t. termItems (termText t)) (sortedTerms termDefs))
          (wrapMatch (infoByLower lc (sortedTerms termDefs)) lc) None"
    by (intro ext) (simp add: rewriteText_def Let_def)
  then show ?thesis using False
    by (simp add: buildTermAnnotator_def annotate_interleave Let_def)
qed

lemma wrapMatch_defSpan:
  "info (toLowerCase lc m) = Some (sl, so) \<Longrightarrow> wrapMatch info lc m = defSpan sl so m"
  by (simp add: wrapMatch_def defSpan_def)

lemma wsRests_suffix: "r \<in> set (wsRests s) \<Longrightarrow> \<exists>w. s = w @ r"
proof (induction s)
  case Nil
  then show ?case by simp
next
  case (Cons x s)
  show ?case
  proof (cases "r = s")
    case True
    then have "x # s = [x] @ r" by simp
    then show ?thesis by blast
  next
    case False
    with Cons.prems have "r \<in> set (wsRests s)" by (auto split: if_splits)
    from Cons.IH[OF this] obtain w where "s = w @ r" by blast
    then have "x # s = (x # w) @ r" by simp
    then show ?thesis by blast
  qed
qed

lemma matchItems_suffix: "rest \<in> set (matchItems uc its s) \<Longrightarrow> \<exists>m. s = m @ rest"
proof (induction uc its s rule: matchItems.induct)
  case (1 uc s)
  then show ?case by simp
next
  case (2 uc c its s)
  from "2.prems" obtain x r where s: "s = x # r" and c: "canonicalize uc x = canonicalize uc c"
    and m: "rest \<in> set (matchItems uc its r)"
    by (cases s) (auto split: if_splits)
  from "2.IH"[OF s c m] obtain m' where "r = m' @ rest" by blast
  then have "s = (x # m') @ rest" using s by simp
  then show ?case by blast
next
  case (3 uc its s)
  then obtain r where r: "r \<in> set (wsRests s)" and m: "rest \<in> set (matchItems uc its r)"
    by auto
  from "3.IH"[OF r m] obtain m' where "r = m' @ rest" by blast
  moreover from wsRests_suffix[OF r] obtain w where "s = w @ r" by blast
  ultimately have "s = (w @ m') @ rest" by simp
  then show ?case by blast
qed

lemma matchAt_split:
  assumes "matchAt uc alts prev s = Some (m, rest)"
  shows "s = m @ rest"
proof -
  let ?cands = "concat (map (\<lambda>a. matchItems uc a s) alts)"
  let ?ok = "filter (\<lambda>rest. wordBoundary (lastChar prev (matched s rest)) rest) ?cands"
  from assms obtain others where f: "?ok = rest # others" and m: "m = matched s rest"
    by (auto simp: matchAt_def split: if_splits list.splits)
  have "rest \<in> set ?ok" unfolding f by simp
  then have "rest \<in> set ?cands" by simp
  then obtain a where "rest \<in> set (matchItems uc a s)" by auto
  from matchItems_suffix[OF this] obtain m' where s: "s = m' @ rest" by blast
  then have "matched s rest = m'" by (simp add: matched_def)
  with m s show ?thesis by simp
qed

lemma scanPrefix_replaceFrom:
  "scanPrefix uc alts cb prev s k = Some out \<Longrightarrow>
     k \<le> length s \<and>
     replaceFrom uc alts cb prev s
       = out @ replaceFrom uc alts cb (lastChar prev (take k s)) (drop k s)"
proof (induction uc alts cb prev s k arbitrary: out rule: scanPrefix.induct)
  case (1 uc alts cb prev s)
  then show ?case by (simp add: lastChar_def)
next
  case (2 uc alts cb prev k)
  then show ?case by simp
next
  case (3 uc alts cb prev c r k)
  show ?case
  proof (cases "matchAt uc alts prev (c # r)")
    case None
    with "3.prems" obtain o' where o: "scanPrefix uc alts cb (Some c) r k = Some o'"
      and out: "out = c # o'" by auto
    from "3.IH"(1)[OF None o]
    have k: "k \<le> length r" and e: "replaceFrom uc alts cb (Some c) r
        = o' @ replaceFrom uc alts cb (lastChar (Some c) (take k r)) (drop k r)" by simp_all
    have l: "lastChar prev (take (Suc k) (c # r)) = lastChar (Some c) (take k r)"
      by (simp add: lastChar_def)
    show ?thesis using None k e out l by simp
  next
    case (Some a)
    obtain m rest where a: "a = (m, rest)" by (cases a)
    from matchAt_split[OF Some[unfolded a]] have s: "c # r = m @ rest" .
    show ?thesis
    proof (cases "m = []")
      case True
      with "3.prems" Some a obtain o' where o: "scanPrefix uc alts cb (Some c) r k = Some o'"
        and out: "out = cb m @ c # o'" by auto
      from "3.IH"(2)[OF Some a[symmetric] True o]
      have k: "k \<le> length r" and e: "replaceFrom uc alts cb (Some c) r
          = o' @ replaceFrom uc alts cb (lastChar (Some c) (take k r)) (drop k r)" by simp_all
      have l: "lastChar prev (take (Suc k) (c # r)) = lastChar (Some c) (take k r)"
        by (simp add: lastChar_def)
      show ?thesis using Some a True k e out l by simp
    next
      case False
      with "3.prems" Some a have le: "length m \<le> Suc k" by (auto split: if_splits)
      with "3.prems" Some a False obtain o' where
        o: "scanPrefix uc alts cb (Some (last m)) rest (Suc k - length m) = Some o'"
        and out: "out = cb m @ o'" by auto
      let ?k' = "Suc k - length m"
      from "3.IH"(3)[OF Some a[symmetric] False le o]
      have k: "?k' \<le> length rest" and e: "replaceFrom uc alts cb (Some (last m)) rest
          = o' @ replaceFrom uc alts cb (lastChar (Some (last m)) (take ?k' rest)) (drop ?k' rest)"
        by simp_all
      have t: "take (Suc k) (c # r) = m @ take ?k' rest" unfolding s using le by simp
      have d: "drop (Suc k) (c # r) = drop ?k' rest" unfolding s using le by simp
      have l: "lastChar prev (take (Suc k) (c # r)) = lastChar (Some (last m)) (take ?k' rest)"
        unfolding t using False by (simp add: lastChar_def)
      have kk: "Suc k \<le> length (c # r)" unfolding s using k le by simp
      have "replaceFrom uc alts cb prev (c # r) = cb m @ replaceFrom uc alts cb (Some (last m)) rest"
        using Some a False by simp
      then show ?thesis using kk unfolding l d e out by simp
    qed
  qed
qed

text \<open>
  An occurrence that is spelled as a term, up to case, is matched by the pattern of the
  term in one way only when a word boundary follows it: a way in which \<open>\s+\<close> takes more
  than one character would need white space on both sides of the end of the occurrence.
\<close>

lemma canonicalize_space: "canonicalize uc x = canonicalize uc 32 \<longleftrightarrow> x = 32"
  by (auto simp: canonicalize_def isLower_def Let_def)

lemma canonicalize_whiteSpace:
  assumes "caseKeepsSpace uc"
  shows "isWhiteSpace (canonicalize uc x) = isWhiteSpace x"
proof (cases "x < 128")
  case True
  then show ?thesis by (auto simp: canonicalize_def isLower_def isWhiteSpace_def)
next
  case False
  then have x: "128 \<le> x" by simp
  show ?thesis
  proof (cases "uc x < 128")
    case True
    then show ?thesis using False by (simp add: canonicalize_def)
  next
    case u: False
    then have c: "canonicalize uc x = uc x" using False by (simp add: canonicalize_def Let_def)
    show ?thesis unfolding c using assms x unfolding caseKeepsSpace_def by metis
  qed
qed

lemma sameLetter_whiteSpace:
  "caseKeepsSpace uc \<Longrightarrow> canonicalize uc a = canonicalize uc b \<Longrightarrow> isWhiteSpace a = isWhiteSpace b"
  by (metis canonicalize_whiteSpace)

lemma wsRests_drop:
  "r \<in> set (wsRests u) \<Longrightarrow>
     \<exists>k. 1 \<le> k \<and> k \<le> length u \<and> r = drop k u \<and> (\<forall>z\<in>set (take k u). isWhiteSpace z)"
proof (induction u)
  case Nil
  then show ?case by simp
next
  case (Cons x u)
  then have x: "isWhiteSpace x" by (auto split: if_splits)
  from Cons.prems x have "r \<in> set (wsRests u) \<or> r = u" by auto
  then show ?case
  proof
    assume "r \<in> set (wsRests u)"
    from Cons.IH[OF this] obtain k where k: "1 \<le> k" "k \<le> length u" "r = drop k u"
      "\<forall>z\<in>set (take k u). isWhiteSpace z" by blast
    then show ?thesis using x by (intro exI[of _ "Suc k"]) auto
  next
    assume "r = u"
    then show ?thesis using x by (intro exI[of _ 1]) auto
  qed
qed

lemma matchItems_shifted:
  assumes k: "caseKeepsSpace uc"
  shows "list_all2 (\<lambda>x c. canonicalize uc x = canonicalize uc c) m t \<Longrightarrow> 1 \<le> s \<Longrightarrow>
     s \<le> length (m @ post) \<Longrightarrow> (\<forall>z\<in>set (take s (m @ post)). isWhiteSpace z) \<Longrightarrow>
     isWhiteSpace y \<Longrightarrow> \<not> (isWhiteSpace (last (y # m)) \<and> post \<noteq> [] \<and> isWhiteSpace (hd post)) \<Longrightarrow>
     matchItems uc (termItems t) (drop s (m @ post)) = []"
proof (induction t arbitrary: m s y)
  case Nil
  then have m: "m = []" by simp
  from Nil.prems(2,3) m have p: "post \<noteq> []" by auto
  then have "hd post \<in> set (take s post)" using Nil.prems(2) by (cases post; cases s) auto
  then have "isWhiteSpace (hd post)" using Nil.prems(4) m by simp
  with Nil.prems(5,6) p m show ?case by simp
next
  case (Cons c t)
  from Cons.prems(1) obtain x m' where m: "m = x # m'"
    and xc: "canonicalize uc x = canonicalize uc c"
    and rest: "list_all2 (\<lambda>x c. canonicalize uc x = canonicalize uc c) m' t"
    by (cases m) auto
  let ?v = "m' @ post"
  obtain s0 where s: "s = Suc s0" using Cons.prems(2) by (cases s) auto
  have x: "isWhiteSpace x" using Cons.prems(4) by (simp add: m s)
  have pre: "\<forall>z\<in>set (take s0 ?v). isWhiteSpace z" using Cons.prems(4) by (simp add: m s)
  have len: "s0 \<le> length ?v" using Cons.prems(3) by (simp add: m s)
  have u: "drop s (m @ post) = drop s0 ?v" by (simp add: m s)
  have nb: "\<not> (isWhiteSpace (last (x # m')) \<and> post \<noteq> [] \<and> isWhiteSpace (hd post))"
    using Cons.prems(6) by (simp add: m)
  show ?case
  proof (cases "c = 32")
    case True
    have "matchItems uc (termItems t) r = []" if r: "r \<in> set (wsRests (drop s0 ?v))" for r
    proof -
      from wsRests_drop[OF r] obtain k where k1: "1 \<le> k" and k2: "k \<le> length (drop s0 ?v)"
        and rk: "r = drop k (drop s0 ?v)" and ws: "\<forall>z\<in>set (take k (drop s0 ?v)). isWhiteSpace z"
        by blast
      have r': "r = drop (s0 + k) ?v" unfolding rk by (metis drop_drop add.commute)
      have t: "take (s0 + k) ?v = take s0 ?v @ take k (drop s0 ?v)" by (rule take_add)
      have a: "\<forall>z\<in>set (take (s0 + k) ?v). isWhiteSpace z" unfolding t using pre ws by auto
      have b: "s0 + k \<le> length ?v" using k2 len by simp
      have c: "1 \<le> s0 + k" using k1 by simp
      show ?thesis unfolding r' by (rule Cons.IH[OF rest c b a x nb])
    qed
    then show ?thesis unfolding u using True by (simp add: termItems_def)
  next
    case False
    show ?thesis
    proof (cases "drop s0 ?v")
      case Nil
      then show ?thesis unfolding u using False by (simp add: termItems_def)
    next
      case (Cons z u')
      have u': "u' = drop s ?v" using Cons unfolding s by (metis drop_Suc tl_drop list.sel(3))
      have l: "s0 < length ?v" using Cons len by (cases "s0 = length ?v") auto
      have tk: "take s ?v = take s0 ?v @ [z]"
        unfolding s using Cons l by (metis hd_drop_conv_nth list.sel(1) take_Suc_conv_app_nth)
      show ?thesis
      proof (cases "canonicalize uc z = canonicalize uc c")
        case same: True
        then have "isWhiteSpace z" using sameLetter_whiteSpace[OF k] xc x by metis
        then have a: "\<forall>z\<in>set (take s ?v). isWhiteSpace z" unfolding tk using pre by auto
        have b: "s \<le> length ?v" using l s by simp
        have "matchItems uc (termItems t) (drop s ?v) = []"
          by (rule Cons.IH[OF rest Cons.prems(2) b a x nb])
        then show ?thesis unfolding u Cons u' using False same by (simp add: termItems_def)
      next
        case False
        then show ?thesis unfolding u Cons using \<open>c \<noteq> 32\<close> by (simp add: termItems_def)
      qed
    qed
  qed
qed

lemma matchItems_spelled:
  assumes k: "caseKeepsSpace uc"
  shows "sameLetters uc m t \<Longrightarrow>
     \<not> (m \<noteq> [] \<and> isWhiteSpace (last m) \<and> post \<noteq> [] \<and> isWhiteSpace (hd post)) \<Longrightarrow>
     matchItems uc (termItems t) (m @ post) = [post]"
proof (induction t arbitrary: m)
  case Nil
  then show ?case by (simp add: sameLetters_def termItems_def)
next
  case (Cons c t)
  from Cons.prems(1) obtain x m' where m: "m = x # m'"
    and xc: "canonicalize uc x = canonicalize uc c"
    and rest: "sameLetters uc m' t"
    unfolding sameLetters_def by (cases m) auto
  have nb': "\<not> (m' \<noteq> [] \<and> isWhiteSpace (last m') \<and> post \<noteq> [] \<and> isWhiteSpace (hd post))"
    using Cons.prems(2) by (auto simp: m)
  have ih: "matchItems uc (termItems t) (m' @ post) = [post]" by (rule Cons.IH[OF rest nb'])
  show ?case
  proof (cases "c = 32")
    case True
    then have x: "x = 32" using xc canonicalize_space by simp
    have ws: "isWhiteSpace 32" by (simp add: isWhiteSpace_def)
    have nb: "\<not> (isWhiteSpace (last (32 # m')) \<and> post \<noteq> [] \<and> isWhiteSpace (hd post))"
      using Cons.prems(2) by (simp add: m x)
    have "matchItems uc (termItems t) r = []" if r: "r \<in> set (wsRests (m' @ post))" for r
    proof -
      from wsRests_drop[OF r] obtain j where j: "1 \<le> j" "j \<le> length (m' @ post)"
        "r = drop j (m' @ post)" "\<forall>z\<in>set (take j (m' @ post)). isWhiteSpace z" by blast
      show ?thesis unfolding j(3)
        using rest[unfolded sameLetters_def] j(1,2,4) ws nb by (rule matchItems_shifted[OF k])
    qed
    then show ?thesis using True ih ws by (simp add: termItems_def m x)
  next
    case False
    then show ?thesis using ih xc by (simp add: termItems_def m)
  qed
qed

lemma matchItems_sameLetters:
  "sameLetters uc t' t \<Longrightarrow> matchItems uc (termItems t') s = matchItems uc (termItems t) s"
proof (induction t' arbitrary: t s)
  case Nil
  then show ?case by (simp add: sameLetters_def)
next
  case (Cons c' t')
  from Cons.prems obtain c t0 where t: "t = c # t0"
    and cc: "canonicalize uc c' = canonicalize uc c" and rest: "sameLetters uc t' t0"
    unfolding sameLetters_def by (cases t) auto
  have sp: "c' = 32 \<longleftrightarrow> c = 32" using cc canonicalize_space by metis
  have ih: "matchItems uc (termItems t') r = matchItems uc (termItems t0) r" for r
    by (rule Cons.IH[OF rest])
  have ihf: "matchItems uc (termItems t') = matchItems uc (termItems t0)" using ih by blast
  show ?case
  proof (cases "c = 32")
    case True
    then show ?thesis using sp ihf by (simp add: termItems_def t)
  next
    case False
    then show ?thesis using sp ih cc by (cases s) (simp_all add: termItems_def t)
  qed
qed

lemma whiteSpace_not_word: "isWhiteSpace c \<Longrightarrow> \<not> isWordChar c"
  by (auto simp: isWhiteSpace_def isWordChar_def isDigit_def isUpper_def isLower_def)

lemma boundary_no_space_run:
  assumes "m \<noteq> []" "wordBoundary (Some (last m)) post"
  shows "\<not> (m \<noteq> [] \<and> isWhiteSpace (last m) \<and> post \<noteq> [] \<and> isWhiteSpace (hd post))"
proof
  assume a: "m \<noteq> [] \<and> isWhiteSpace (last m) \<and> post \<noteq> [] \<and> isWhiteSpace (hd post)"
  then obtain c r where p: "post = c # r" and c: "isWhiteSpace c" by (cases post) auto
  from a have "\<not> isWordChar (last m)" by (simp add: whiteSpace_not_word)
  moreover have "\<not> isWordChar c" using c by (rule whiteSpace_not_word)
  ultimately show False using assms(2) by (simp add: wordBoundary_def isWordAt_def nextChar_def p)
qed

lemma termMatchesAt_filter:
  assumes "wordBoundary prev s" "\<not> termMatchesAt uc t prev s"
  shows "filter (\<lambda>rest. wordBoundary (lastChar prev (matched s rest)) rest)
           (matchItems uc (termItems t) s) = []"
  using assms by (auto simp: termMatchesAt_def matchAt_def split: list.splits)

lemma matchAt_occurrence:
  assumes b1: "wordBoundary prev (m @ post)"
    and mne: "m \<noteq> []"
    and b2: "wordBoundary (Some (last m)) post"
    and own: "matchItems uc (termItems t) (m @ post) = [post]"
    and before: "\<forall>t'\<in>set T1. \<not> termMatchesAt uc t' prev (m @ post) \<or>
                   matchItems uc (termItems t') (m @ post) = [post]"
  shows "matchAt uc (map termItems (T1 @ t # T2)) prev (m @ post) = Some (m, post)"
proof -
  let ?s = "m @ post"
  let ?ok = "\<lambda>rest. wordBoundary (lastChar prev (matched ?s rest)) rest"
  have mt: "matched ?s post = m" by (simp add: matched_def)
  have ok: "?ok post" using b2 mne by (simp add: mt lastChar_def)
  have "\<exists>others. filter ?ok (concat (map (\<lambda>a. matchItems uc a ?s) (map termItems (T1 @ t # T2))))
          = post # others"
    using before
  proof (induction T1)
    case Nil
    then show ?case using own ok by simp
  next
    case (Cons t' T1)
    then obtain others where
      ih: "filter ?ok (concat (map (\<lambda>a. matchItems uc a ?s) (map termItems (T1 @ t # T2))))
            = post # others" by auto
    from Cons.prems have "\<not> termMatchesAt uc t' prev ?s \<or> matchItems uc (termItems t') ?s = [post]"
      by simp
    then show ?case
    proof
      assume "\<not> termMatchesAt uc t' prev ?s"
      from termMatchesAt_filter[OF b1 this] show ?thesis using ih by simp
    next
      assume "matchItems uc (termItems t') ?s = [post]"
      then show ?thesis using ih ok by simp
    qed
  qed
  then obtain others where
    "filter ?ok (concat (map (\<lambda>a. matchItems uc a ?s) (map termItems (T1 @ t # T2)))) = post # others"
    by blast
  then show ?thesis using b1 by (simp add: matchAt_def mt)
qed

text \<open>The sorted terms: the usable records, a longer term in front of a shorter one.\<close>

lemma set_sortedTerms:
  "set (sortedTerms termDefs) = {d \<in> set termDefs. termText d \<noteq> [] \<and> slug d \<noteq> []}"
  by (auto simp: sortedTerms_def)

lemma sortedTerms_split:
  assumes "d \<in> set (sortedTerms termDefs)"
  shows "\<exists>D1 D2. sortedTerms termDefs = D1 @ d # D2 \<and>
           (\<forall>d'\<in>set D1. length (termText d) \<le> length (termText d'))"
proof -
  from assms obtain D1 D2 where s: "sortedTerms termDefs = D1 @ d # D2"
    by (meson split_list)
  have "sorted (map (\<lambda>d. - int (length (termText d))) (sortedTerms termDefs))"
    unfolding sortedTerms_def by (rule sorted_sort_key)
  then have "\<forall>d'\<in>set D1. - int (length (termText d')) \<le> - int (length (termText d))"
    unfolding s by (auto simp: sorted_append)
  then have "\<forall>d'\<in>set D1. length (termText d) \<le> length (termText d')" by auto
  with s show ?thesis by blast
qed

text \<open>The table keeps, for a key, the last of the sorted records that has it.\<close>

lemma map_of_rev_last:
  "map_of (rev (map (\<lambda>t. (kf t, vf t)) xs)) k =
     (if filter (\<lambda>t. kf t = k) xs = [] then None
      else Some (vf (last (filter (\<lambda>t. kf t = k) xs))))"
  by (induction xs rule: rev_induct) auto

lemma filter_sort_key_same:
  assumes "\<forall>x\<in>set xs. P x \<longrightarrow> f x = c"
  shows "filter P (sort_key f xs) = filter P xs"
proof -
  have e: "filter P ys = filter P (filter (\<lambda>y. f y = c) ys)" if "set ys = set xs" for ys
    using assms that by (auto simp: filter_filter intro!: filter_cong)
  have "filter P (sort_key f xs) = filter P (filter (\<lambda>y. f y = c) (sort_key f xs))"
    by (rule e) simp
  also have "\<dots> = filter P (filter (\<lambda>y. f y = c) xs)" by (simp only: sort_key_stable)
  also have "\<dots> = filter P xs" by (rule e[symmetric]) simp
  finally show ?thesis .
qed

lemma infoByLower_member:
  assumes "d \<in> set (sortedTerms termDefs)"
  shows "\<exists>d'\<in>set (sortedTerms termDefs).
           toLowerCase lc (termText d') = toLowerCase lc (termText d) \<and>
           infoByLower lc (sortedTerms termDefs) (toLowerCase lc (termText d))
             = Some (slug d', source d')"
proof -
  let ?P = "\<lambda>t. toLowerCase lc (termText t) = toLowerCase lc (termText d)"
  let ?f = "filter ?P (sortedTerms termDefs)"
  have ne: "?f \<noteq> []" using assms by (auto simp: filter_empty_conv)
  then have "last ?f \<in> set ?f" by (rule last_in_set)
  then have l: "last ?f \<in> set (sortedTerms termDefs)" "?P (last ?f)" by auto
  have "infoByLower lc (sortedTerms termDefs) (toLowerCase lc (termText d))
      = Some (slug (last ?f), source (last ?f))"
    unfolding infoByLower_def using ne
    by (simp add: map_of_rev_last[where vf = "\<lambda>t. (slug t, source t)"])
  with l show ?thesis by blast
qed

lemma infoByLower_last_record:
  assumes split: "termDefs = A @ d2 # B"
    and usable: "termText d2 \<noteq> []" "slug d2 \<noteq> []"
    and lastOne: "\<forall>d\<in>set B. termText d \<noteq> [] \<longrightarrow> slug d \<noteq> [] \<longrightarrow>
                   toLowerCase lc (termText d) \<noteq> toLowerCase lc (termText d2)"
    and sameLength: "\<forall>d\<in>set A. termText d \<noteq> [] \<longrightarrow> slug d \<noteq> [] \<longrightarrow>
                   toLowerCase lc (termText d) = toLowerCase lc (termText d2) \<longrightarrow>
                   length (termText d) = length (termText d2)"
  shows "infoByLower lc (sortedTerms termDefs) (toLowerCase lc (termText d2))
           = Some (slug d2, source d2)"
proof -
  let ?P = "\<lambda>t. toLowerCase lc (termText t) = toLowerCase lc (termText d2)"
  let ?U = "\<lambda>d. termText d \<noteq> [] \<and> slug d \<noteq> []"
  let ?key = "\<lambda>d. - int (length (termText d))"
  have same: "\<forall>x\<in>set (filter ?U termDefs). ?P x \<longrightarrow> ?key x = ?key d2"
    using sameLength lastOne unfolding split by auto
  have "filter ?P (sortedTerms termDefs) = filter ?P (filter ?U termDefs)"
    unfolding sortedTerms_def using same by (rule filter_sort_key_same)
  also have "\<dots> = filter ?P (filter ?U A) @ [d2]"
    unfolding split using usable lastOne by (auto simp: filter_empty_conv)
  finally have f: "filter ?P (sortedTerms termDefs) = filter ?P (filter ?U A) @ [d2]" .
  show ?thesis
    unfolding infoByLower_def
    by (simp add: map_of_rev_last[where vf = "\<lambda>t. (slug t, source t)"] f)
qed

lemma annotate_occurrence:
  assumes host: "caseKeepsSpace uc"
    and mem: "d \<in> set (sortedTerms termDefs)"
    and sp: "sameLetters uc m (termText d)"
    and reach: "annotatedPrefix lc uc termDefs (pre @ m @ post) (length pre) = Some out"
    and b1: "wordBoundary (lastChar None pre) (m @ post)"
    and b2: "wordBoundary (Some (last m)) post"
    and comp: "\<forall>d'\<in>set (sortedTerms termDefs).
        length (termText d) \<le> length (termText d') \<longrightarrow>
        termMatchesAt uc (termText d') (lastChar None pre) (m @ post) \<longrightarrow>
        sameLetters uc (termText d') (termText d)"
    and info: "infoByLower lc (sortedTerms termDefs) (toLowerCase lc m) = Some (sl, so)"
  shows "rewriteText lc uc termDefs (pre @ m @ post)
         = out @ defSpan sl so m @ rewriteAfter lc uc termDefs (last m) post"
proof -
  let ?alts = "map (\<lambda>t. termItems (termText t)) (sortedTerms termDefs)"
  let ?cb = "wrapMatch (infoByLower lc (sortedTerms termDefs)) lc"
  let ?prev = "lastChar None pre"
  from mem have tne: "termText d \<noteq> []" by (simp add: set_sortedTerms)
  with sp have mne: "m \<noteq> []" by (auto simp: sameLetters_def)
  from mem have ne: "sortedTerms termDefs \<noteq> []" by auto
  from sortedTerms_split[OF mem] obtain D1 D2 where
    st: "sortedTerms termDefs = D1 @ d # D2"
    and longer: "\<forall>d'\<in>set D1. length (termText d) \<le> length (termText d')" by blast
  have own: "matchItems uc (termItems (termText d)) (m @ post) = [post]"
    using host sp boundary_no_space_run[OF mne b2] by (rule matchItems_spelled)
  have before: "\<forall>t'\<in>set (map termText D1). \<not> termMatchesAt uc t' ?prev (m @ post) \<or>
                   matchItems uc (termItems t') (m @ post) = [post]"
  proof
    fix t' assume "t' \<in> set (map termText D1)"
    then obtain d' where d': "d' \<in> set D1" and t': "t' = termText d'" by auto
    from d' have "d' \<in> set (sortedTerms termDefs)" unfolding st by simp
    with comp longer d' have
      "termMatchesAt uc t' ?prev (m @ post) \<longrightarrow> sameLetters uc t' (termText d)"
      unfolding t' by blast
    then show "\<not> termMatchesAt uc t' ?prev (m @ post) \<or>
                   matchItems uc (termItems t') (m @ post) = [post]"
      using matchItems_sameLetters[of uc t' "termText d" "m @ post"] own by auto
  qed
  have alts: "?alts = map termItems (map termText D1 @ termText d # map termText D2)"
    unfolding st by simp
  have ma: "matchAt uc ?alts ?prev (m @ post) = Some (m, post)"
    unfolding alts using b1 mne b2 own before by (rule matchAt_occurrence)
  have "rewriteText lc uc termDefs (pre @ m @ post) = replaceFrom uc ?alts ?cb None (pre @ m @ post)"
    using ne by (simp add: rewriteText_def Let_def)
  also have "\<dots> = out @ replaceFrom uc ?alts ?cb ?prev (m @ post)"
    using scanPrefix_replaceFrom[OF reach[unfolded annotatedPrefix_def]] by simp
  also have "replaceFrom uc ?alts ?cb ?prev (m @ post)
        = ?cb m @ replaceFrom uc ?alts ?cb (Some (last m)) post"
  proof -
    from mne obtain c r where m: "m = c # r" by (cases m) auto
    have "matchAt uc ?alts ?prev (c # r @ post) = Some (m, post)" using ma by (simp add: m)
    then have "replaceFrom uc ?alts ?cb ?prev (c # r @ post)
        = ?cb m @ replaceFrom uc ?alts ?cb (Some (last m)) post"
      using mne by simp
    then show ?thesis by (simp add: m)
  qed
  also have "?cb m = defSpan sl so m" using info by (rule wrapMatch_defSpan)
  finally show ?thesis by (simp add: rewriteAfter_def)
qed

section \<open>Properties of the definition extractor\<close>

lemma collapseRuns_chars: "c \<in> set (collapseRuns b s) \<Longrightarrow> isSlugChar c \<or> c = 45"
  by (induction s arbitrary: b) (auto split: if_splits)

lemma collapseRuns_noDouble:
  "noDoubleHyphen (collapseRuns b s) \<and> (b \<longrightarrow> collapseRuns b s = [] \<or> hd (collapseRuns b s) \<noteq> 45)"
proof (induction s arbitrary: b)
  case Nil
  then show ?case by simp
next
  case (Cons c s)
  have h: "\<not> isSlugChar 45" by (simp add: isSlugChar_def isLower_def isDigit_def)
  show ?case
  proof (cases "isSlugChar c")
    case True
    then have "c \<noteq> 45" using h by auto
    with True Cons.IH[of False] show ?thesis
      by (cases "collapseRuns False s") auto
  next
    case False
    with Cons.IH[of True] show ?thesis
      by (cases "collapseRuns True s") auto
  qed
qed

lemma noDoubleHyphen_append:
  "noDoubleHyphen (xs @ ys) \<Longrightarrow> noDoubleHyphen xs \<and> noDoubleHyphen ys"
proof (induction xs)
  case Nil
  then show ?case by simp
next
  case (Cons a xs)
  show ?case
  proof (cases xs)
    case Nil
    with Cons.prems show ?thesis by (cases ys) auto
  next
    case inner: (Cons b r)
    with Cons.prems Cons.IH show ?thesis by auto
  qed
qed

lemma rev_dropWhile_decomp:
  "x = rev (dropWhile P (rev x)) @ rev (takeWhile P (rev x))"
  by (metis rev_append rev_rev_ident takeWhile_dropWhile_id)

lemma stripHyphens_decomp:
  "\<exists>u v. s = u @ stripHyphens s @ v"
proof -
  let ?P = "\<lambda>c. c = (45::nat)"
  let ?x = "dropWhile ?P s"
  have 1: "s = takeWhile ?P s @ ?x" by simp
  have 2: "?x = stripHyphens s @ rev (takeWhile ?P (rev ?x))"
    unfolding stripHyphens_def by (rule rev_dropWhile_decomp)
  from 1 2 have "s = takeWhile ?P s @ stripHyphens s @ rev (takeWhile ?P (rev ?x))" by simp
  then show ?thesis by blast
qed

lemma stripHyphens_ends:
  "stripHyphens s = [] \<or> (hd (stripHyphens s) \<noteq> 45 \<and> last (stripHyphens s) \<noteq> 45)"
proof (cases "stripHyphens s = []")
  case True
  then show ?thesis by simp
next
  case False
  let ?P = "\<lambda>c. c = (45::nat)"
  let ?x = "dropWhile ?P s"
  let ?y = "dropWhile ?P (rev ?x)"
  have r: "stripHyphens s = rev ?y" by (simp add: stripHyphens_def)
  with False have yne: "?y \<noteq> []" by simp
  then have "\<not> ?P (hd ?y)" by (rule hd_dropWhile)
  then have l: "last (stripHyphens s) \<noteq> 45" using yne by (simp add: r last_rev)
  have x: "?x = rev ?y @ rev (takeWhile ?P (rev ?x))" by (rule rev_dropWhile_decomp)
  have xne: "?x \<noteq> []"
  proof
    assume a: "?x = []"
    have "?y = []" unfolding a by simp
    with yne show False by blast
  qed
  then have "\<not> ?P (hd ?x)" by (rule hd_dropWhile)
  moreover have "hd ?x = hd (rev ?y)" using x yne by (metis hd_append2 rev_is_Nil_conv)
  ultimately have "hd (stripHyphens s) \<noteq> 45" by (simp add: r)
  with l show ?thesis by simp
qed

lemma slugify_shape: "slugShaped (slugify lc t)"
proof -
  let ?c = "collapseRuns False (toLowerCase lc t)"
  obtain u v where d: "?c = u @ stripHyphens ?c @ v" using stripHyphens_decomp by blast
  have "set (stripHyphens ?c) \<subseteq> set ?c" using d by (metis Un_iff set_append subsetI)
  then have 1: "list_all (\<lambda>c. isSlugChar c \<or> c = 45) (stripHyphens ?c)"
    using collapseRuns_chars by (auto simp: list_all_iff)
  have "noDoubleHyphen ?c" using collapseRuns_noDouble by blast
  then have "noDoubleHyphen (u @ stripHyphens ?c @ v)" using d by simp
  then have 2: "noDoubleHyphen (stripHyphens ?c)"
    using noDoubleHyphen_append by blast
  show ?thesis using 1 2 stripHyphens_ends[of ?c] by (simp add: slugShaped_def slugify_def)
qed

lemma firstQuoted_first:
  assumes "8220 \<notin> set p" "t \<noteq> []" "\<forall>c\<in>set t. \<not> excluded c" "excluded 8221"
  shows "firstQuoted excluded (p @ 8220 # t @ 8221 # q) = Some t"
  using assms(1)
proof (induction p)
  case Nil
  have 1: "takeWhile (\<lambda>c. \<not> excluded c) (t @ 8221 # q) = t"
    using assms(3,4) by (intro takeWhile_stop) auto
  have 2: "dropWhile (\<lambda>c. \<not> excluded c) (t @ 8221 # q) = 8221 # q"
    using assms(3,4) by (intro dropWhile_stop) auto
  show ?case using assms(2) by (simp add: quotedRun_def 1 2)
next
  case (Cons a p)
  then show ?case by simp
qed

lemma firstQuoted_sound:
  "firstQuoted excluded s = Some t \<Longrightarrow>
     \<exists>p q. s = p @ 8220 # t @ 8221 # q \<and> t \<noteq> [] \<and> (\<forall>c\<in>set t. \<not> excluded c)"
proof (induction s)
  case Nil
  then show ?case by simp
next
  case (Cons a s)
  show ?case
  proof (cases "a = 8220 \<and> quotedRun excluded s = Some t")
    case True
    let ?run = "takeWhile (\<lambda>c. \<not> excluded c) s" and ?r = "dropWhile (\<lambda>c. \<not> excluded c) s"
    from True have t: "t = ?run" and ne: "?run \<noteq> []" and rne: "?r \<noteq> []" and h: "hd ?r = 8221"
      by (auto simp: quotedRun_def Let_def split: if_splits)
    from rne h have "?r = 8221 # tl ?r" by (cases ?r) auto
    then have "s = t @ 8221 # tl ?r" unfolding t by (metis takeWhile_dropWhile_id)
    moreover have "\<forall>c\<in>set t. \<not> excluded c" unfolding t by (auto dest: set_takeWhileD)
    ultimately show ?thesis using True ne t by (intro exI[of _ "[]"] exI[of _ "tl ?r"]) auto
  next
    case False
    with Cons.prems have "firstQuoted excluded s = Some t"
      by (auto split: if_splits option.splits)
    from Cons.IH[OF this] obtain p q where
      "s = p @ 8220 # t @ 8221 # q" "t \<noteq> []" "\<forall>c\<in>set t. \<not> excluded c" by blast
    then show ?thesis by (intro exI[of _ "a # p"] exI[of _ q]) auto
  qed
qed

lemma parseSec101Defs_members:
  "d \<in> set (parseSec101Defs lc h) \<Longrightarrow> \<exists>cls inner. d = mkSec101Def lc cls inner"
proof (induction lc h rule: parseSec101Defs.induct)
  case (1 lc)
  then show ?case by simp
next
  case (2 lc c r)
  then show ?case by (cases "matchParagraph (c # r)") auto
qed

lemma parseSec101Defs_uscode_members:
  "d \<in> set (parseSec101Defs_uscode lc h) \<Longrightarrow> \<exists>cls inner. d = mkSec101Def_uscode lc cls inner"
proof (induction lc h rule: parseSec101Defs_uscode.induct)
  case (1 lc)
  then show ?case by simp
next
  case (2 lc c r)
  then show ?case by (cases "matchParagraph (c # r)") auto
qed

lemma stripOneHyphen_eq:
  assumes "noDoubleHyphen x"
  shows "stripOneHyphen x = stripHyphens x"
proof -
  let ?P = "\<lambda>c. c = (45::nat)"
  let ?s1 = "case x of [] \<Rightarrow> [] | c # r \<Rightarrow> if c = 45 then r else x"
  have s1: "?s1 = dropWhile ?P x"
  proof (cases x)
    case Nil
    then show ?thesis by simp
  next
    case (Cons c r)
    show ?thesis
    proof (cases "c = 45")
      case True
      with assms Cons have "r = [] \<or> hd r \<noteq> 45" by (cases r) auto
      then have "dropWhile ?P r = r" by (cases r) auto
      with True Cons show ?thesis by simp
    next
      case False
      with Cons show ?thesis by simp
    qed
  qed
  have "x = takeWhile ?P x @ dropWhile ?P x" by simp
  with assms have "noDoubleHyphen (takeWhile ?P x @ dropWhile ?P x)" by simp
  then have nd: "noDoubleHyphen (dropWhile ?P x)" using noDoubleHyphen_append by blast
  have 2: "(if y \<noteq> [] \<and> last y = 45 then butlast y else y) = rev (dropWhile ?P (rev y))"
    if "noDoubleHyphen y" for y
  proof (cases "y \<noteq> [] \<and> last y = 45")
    case False
    then have "y = [] \<or> \<not> ?P (hd (rev y))" by (auto simp: hd_rev)
    then have "dropWhile ?P (rev y) = rev y" by (cases "rev y") auto
    with False show ?thesis by auto
  next
    case True
    then obtain ys where y: "y = ys @ [45]" by (metis append_butlast_last_id)
    have b: "ys = [] \<or> last ys \<noteq> 45"
    proof (cases "ys = []")
      case True then show ?thesis by simp
    next
      case False
      then have "ys = butlast ys @ [last ys]" by simp
      then have "y = butlast ys @ [last ys, 45]" unfolding y by (metis append_Cons append_Nil append_assoc)
      with that have "noDoubleHyphen (butlast ys @ [last ys, 45])" by simp
      then have "noDoubleHyphen [last ys, 45]" using noDoubleHyphen_append by blast
      then show ?thesis by simp
    qed
    have "dropWhile ?P (rev ys) = rev ys"
      using b by (cases "rev ys") (auto simp: hd_rev)
    then have "rev (dropWhile ?P (rev y)) = ys" unfolding y by simp
    then show ?thesis unfolding y by simp
  qed
  show ?thesis
    unfolding stripOneHyphen_def Let_def s1 stripHyphens_def using 2[OF nd] by simp
qed

lemma slugify_uscode_eq: "slugify_uscode lc t = slugify lc t"
  unfolding slugify_uscode_def slugify_def
  using collapseRuns_noDouble by (intro stripOneHyphen_eq) blast

lemma mkSec101Def_term:
  "term101 (mkSec101Def lc cls inner) = (if cls = js ''indent1'' then termMatch inner else None)"
  "slug101 (mkSec101Def lc cls inner) = map_option (slugify lc) (term101 (mkSec101Def lc cls inner))"
  "indentClass (mkSec101Def lc cls inner) = cls"
  "innerHtml (mkSec101Def lc cls inner) = inner"
  by (auto simp: mkSec101Def_def split: option.splits)

lemma mkSec101Def_uscode_term:
  "term_u (mkSec101Def_uscode lc cls inner)
     = (if cls = js ''indent1'' then (case termMatch_uscode inner of Some t \<Rightarrow> t | None \<Rightarrow> []) else [])"
  "slug_u (mkSec101Def_uscode lc cls inner) = slugify lc (term_u (mkSec101Def_uscode lc cls inner))"
  "indentClass_u (mkSec101Def_uscode lc cls inner) = cls"
  "innerHtml_u (mkSec101Def_uscode lc cls inner) = inner"
  by (auto simp: mkSec101Def_uscode_def Let_def slugify_uscode_eq slugify_def stripHyphens_def
      toLowerCase_def split: option.splits)

text \<open>
  The slug keeps the small letters and digits of the lower-case term, in their order; the
  rest of it are the hyphens.
\<close>

lemma collapseRuns_alnum: "filter isSlugChar (collapseRuns b s) = filter isSlugChar s"
  by (induction s arbitrary: b) (auto simp: isSlugChar_def isLower_def isDigit_def)

lemma stripHyphens_alnum: "filter isSlugChar (stripHyphens s) = filter isSlugChar s"
proof -
  have h: "\<not> isSlugChar 45" by (simp add: isSlugChar_def isLower_def isDigit_def)
  have d: "filter isSlugChar (dropWhile (\<lambda>c. c = 45) x) = filter isSlugChar x" for x
    using h by (induction x) auto
  have "filter isSlugChar (stripHyphens s)
      = rev (filter isSlugChar (dropWhile (\<lambda>c. c = 45) (rev (dropWhile (\<lambda>c. c = 45) s))))"
    by (simp add: stripHyphens_def rev_filter)
  also have "\<dots> = rev (filter isSlugChar (rev (dropWhile (\<lambda>c. c = 45) s)))" by (simp only: d)
  also have "\<dots> = filter isSlugChar (dropWhile (\<lambda>c. c = 45) s)" by (simp add: rev_filter)
  finally show ?thesis by (simp only: d)
qed

lemma slugify_alnum:
  "filter isSlugChar (slugify lc t) = filter isSlugChar (toLowerCase lc t)"
  by (simp add: slugify_def stripHyphens_alnum collapseRuns_alnum)

text \<open>
  The extractor of the Title 17 viewer: only a paragraph of class \<open>indent1\<close> has a term;
  the term is the text between the first opening curly quote and the next closing one,
  when that text is not empty; the slug is the slug of the term.
\<close>

lemma parseSec101Defs_first_span:
  assumes "d \<in> set (parseSec101Defs lc h)"
  shows "term101 d \<noteq> None \<longrightarrow> indentClass d = js ''indent1''"
    and "indentClass d = js ''indent1'' \<and> innerHtml d = p @ 8220 # t @ 8221 # q \<and>
         8220 \<notin> set p \<and> t \<noteq> [] \<and> 8221 \<notin> set t \<longrightarrow> term101 d = Some t"
    and "term101 d = Some t' \<longrightarrow>
         (\<exists>p' q'. innerHtml d = p' @ 8220 # t' @ 8221 # q' \<and> t' \<noteq> [] \<and> 8221 \<notin> set t')"
    and "slug101 d = map_option (slugify lc) (term101 d)"
proof -
  from assms obtain cls inner where d: "d = mkSec101Def lc cls inner"
    using parseSec101Defs_members by blast
  show "term101 d \<noteq> None \<longrightarrow> indentClass d = js ''indent1''"
    unfolding d by (simp add: mkSec101Def_term)
  show "indentClass d = js ''indent1'' \<and> innerHtml d = p @ 8220 # t @ 8221 # q \<and>
       8220 \<notin> set p \<and> t \<noteq> [] \<and> 8221 \<notin> set t \<longrightarrow> term101 d = Some t"
    unfolding d by (auto simp: mkSec101Def_term termMatch_def intro!: firstQuoted_first)
  show "term101 d = Some t' \<longrightarrow>
         (\<exists>p' q'. innerHtml d = p' @ 8220 # t' @ 8221 # q' \<and> t' \<noteq> [] \<and> 8221 \<notin> set t')"
  proof
    assume a: "term101 d = Some t'"
    then have "firstQuoted (\<lambda>c. c = 8221) inner = Some t'"
      unfolding d by (simp add: mkSec101Def_term termMatch_def split: if_splits)
    from firstQuoted_sound[OF this] obtain p' q' where
      "inner = p' @ 8220 # t' @ 8221 # q'" "t' \<noteq> []" "8221 \<notin> set t'" by blast
    then show "\<exists>p' q'. innerHtml d = p' @ 8220 # t' @ 8221 # q' \<and> t' \<noteq> [] \<and> 8221 \<notin> set t'"
      unfolding d by (auto simp: mkSec101Def_term)
  qed
  show "slug101 d = map_option (slugify lc) (term101 d)"
    unfolding d by (simp add: mkSec101Def_def split: option.splits)
qed

lemmas codec_eval_defs =
  parseHash_uscode_def viewToHash_uscode_def parseHash_def viewToHash_def stripHashPrefix_def
  defMatch_def secParenMatch_def secMatch_def titleMatch_def matchTitleSection_def
  matchTitlePrefix_def matchNum_def defMatch_section_def startsWith_def indexOf_def
  dotPlusToEnd_def isIdent_def isParenAnchor_def isDefAnchor_def js_def Let_def
  isDigit_def isUpper_def isLineTerminator_def

text \<open>
  Claim C1: decoding the encoded address returns the target, for every view state. Both
  viewers break it on targets that their own callers build. The all-titles viewer
  navigates to the sections of every title, among them section 1396a of title 42; its
  decoder reads only identifiers of digits followed by capitals, so the address of that
  section decodes to the home view, while the decoder of the Title 17 viewer takes any
  section number. The Title 17 viewer navigates to a section with a paragraph or
  definition anchor; its encoder writes the section number only, so the anchor is lost,
  while its decoder reads both anchors and the encoder of the all-titles viewer writes
  them.
\<close>

theorem codec_roundtrip_failures:
  "parseHash_uscode (viewToHash_uscode (SectionU (js ''42'') (js ''1396a'') None)) = HomeU \<and>
   parseHash (viewToHash (Section (js ''1396a'') None)) = Section (js ''1396a'') None \<and>
   parseHash (viewToHash (Section (js ''106'') (Some (js ''(a)(1)''))))
     = Section (js ''106'') None \<and>
   parseHash (viewToHash (Section (js ''101'') (Some (js ''def/anonymous-work''))))
     = Section (js ''101'') None \<and>
   parseHash (js ''#section/106(a)(1)'') = Section (js ''106'') (Some (js ''(a)(1)'')) \<and>
   parseHash (js ''#section/101/def/anonymous-work'')
     = Section (js ''101'') (Some (js ''def/anonymous-work'')) \<and>
   parseHash_uscode (viewToHash_uscode (SectionU (js ''17'') (js ''106'') (Some (js ''(a)(1)''))))
     = SectionU (js ''17'') (js ''106'') (Some (js ''(a)(1)'')) \<and>
   parseHash_uscode
       (viewToHash_uscode (SectionU (js ''17'') (js ''101'') (Some (js ''def/anonymous-work''))))
     = SectionU (js ''17'') (js ''101'') (Some (js ''def/anonymous-work''))"
  by (simp add: codec_eval_defs)

text \<open>
  Claim C2: the decoder of the all-titles viewer reads \<open>t17/s106(a)(1)\<close> as section 106
  of title 17 with the path anchor \<open>(a)(1)\<close>, and \<open>t17/s101/def/anonymous-work\<close> as
  section 101 of title 17 with the anchor \<open>def/anonymous-work\<close>. It reads \<open>t17/s106\<close> as
  the bare section, \<open>t17\<close> as the title, and anything else, or nothing, as home. For all
  identifiers of digits followed by capitals it reads a definition anchor, a path anchor,
  a bare section and a title as such. On a non-empty address it tries the
  definition-anchor pattern, then the paragraph-anchor pattern, then the bare-section
  pattern, then the title pattern, and returns home when none matches.
\<close>

theorem parseHash_uscode_scenarios_and_order:
  "parseHash_uscode (js ''t17/s106(a)(1)'')
     = SectionU (js ''17'') (js ''106'') (Some (js ''(a)(1)'')) \<and>
   parseHash_uscode (js ''t17/s101/def/anonymous-work'')
     = SectionU (js ''17'') (js ''101'') (Some (js ''def/anonymous-work'')) \<and>
   parseHash_uscode (js ''t17/s106'') = SectionU (js ''17'') (js ''106'') None \<and>
   parseHash_uscode (js ''t17'') = TitleU (js ''17'') \<and>
   parseHash_uscode (js ''chapter/1'') = HomeU \<and>
   parseHash_uscode (js ''#'') = HomeU \<and>
   parseHash_uscode [] = HomeU \<and>
   (isIdent tn \<and> isIdent sn \<longrightarrow>
     (dotPlusToEnd sl \<longrightarrow>
        parseHash_uscode (js ''#t'' @ tn @ js ''/s'' @ sn @ js ''/def/'' @ sl)
          = SectionU tn sn (Some (js ''def/'' @ sl))) \<and>
     (dotPlusToEnd r \<longrightarrow>
        parseHash_uscode (js ''#t'' @ tn @ js ''/s'' @ sn @ js ''('' @ r)
          = SectionU tn sn (Some (js ''('' @ r))) \<and>
     parseHash_uscode (js ''#t'' @ tn @ js ''/s'' @ sn) = SectionU tn sn None \<and>
     parseHash_uscode (js ''#t'' @ tn) = TitleU tn) \<and>
   (stripHashPrefix hash = h \<and> h \<noteq> [] \<longrightarrow>
     (defMatch h = Some (t, s, g) \<longrightarrow>
        parseHash_uscode hash = SectionU t s (Some (js ''def/'' @ g))) \<and>
     (defMatch h = None \<and> secParenMatch h = Some (t, s, a) \<longrightarrow>
        parseHash_uscode hash = SectionU t s (Some a)) \<and>
     (defMatch h = None \<and> secParenMatch h = None \<and> secMatch h = Some (t, s) \<longrightarrow>
        parseHash_uscode hash = SectionU t s None) \<and>
     (defMatch h = None \<and> secParenMatch h = None \<and> secMatch h = None \<and>
      titleMatch h = Some t \<longrightarrow>
        parseHash_uscode hash = TitleU t) \<and>
     (defMatch h = None \<and> secParenMatch h = None \<and> secMatch h = None \<and>
      titleMatch h = None \<longrightarrow>
        parseHash_uscode hash = HomeU))"
proof -
  have c: "parseHash_uscode (js ''t17/s106(a)(1)'')
       = SectionU (js ''17'') (js ''106'') (Some (js ''(a)(1)''))"
    "parseHash_uscode (js ''t17/s101/def/anonymous-work'')
       = SectionU (js ''17'') (js ''101'') (Some (js ''def/anonymous-work''))"
    "parseHash_uscode (js ''t17/s106'') = SectionU (js ''17'') (js ''106'') None"
    "parseHash_uscode (js ''t17'') = TitleU (js ''17'')"
    "parseHash_uscode (js ''chapter/1'') = HomeU"
    "parseHash_uscode (js ''#'') = HomeU"
    "parseHash_uscode [] = HomeU"
    by (simp_all add: codec_eval_defs)
  have g: "isIdent tn \<and> isIdent sn \<longrightarrow>
     (dotPlusToEnd sl \<longrightarrow>
        parseHash_uscode (js ''#t'' @ tn @ js ''/s'' @ sn @ js ''/def/'' @ sl)
          = SectionU tn sn (Some (js ''def/'' @ sl))) \<and>
     (dotPlusToEnd r \<longrightarrow>
        parseHash_uscode (js ''#t'' @ tn @ js ''/s'' @ sn @ js ''('' @ r)
          = SectionU tn sn (Some (js ''('' @ r))) \<and>
     parseHash_uscode (js ''#t'' @ tn @ js ''/s'' @ sn) = SectionU tn sn None \<and>
     parseHash_uscode (js ''#t'' @ tn) = TitleU tn"
  proof (intro impI conjI)
    assume i: "isIdent tn \<and> isIdent sn"
    show "parseHash_uscode (js ''#t'' @ tn @ js ''/s'' @ sn) = SectionU tn sn None"
      using roundtrip_uscode[of "SectionU tn sn None"] i by (simp add: viewToHash_uscode_def)
    show "parseHash_uscode (js ''#t'' @ tn) = TitleU tn"
      using roundtrip_uscode[of "TitleU tn"] i by (simp add: viewToHash_uscode_def)
  next
    assume i: "isIdent tn \<and> isIdent sn" and d: "dotPlusToEnd sl"
    have "wf_view_uscode (SectionU tn sn (Some (js ''def/'' @ sl)))"
      using i d by (simp add: isDefAnchor_def startsWith_def js_simps)
    from roundtrip_uscode[OF this]
    show "parseHash_uscode (js ''#t'' @ tn @ js ''/s'' @ sn @ js ''/def/'' @ sl)
          = SectionU tn sn (Some (js ''def/'' @ sl))"
      by (simp add: viewToHash_uscode_def startsWith_def js_simps)
  next
    assume i: "isIdent tn \<and> isIdent sn" and d: "dotPlusToEnd r"
    have "wf_view_uscode (SectionU tn sn (Some (js ''('' @ r)))"
      using i d by (simp add: isParenAnchor_def js_def)
    from roundtrip_uscode[OF this]
    show "parseHash_uscode (js ''#t'' @ tn @ js ''/s'' @ sn @ js ''('' @ r)
          = SectionU tn sn (Some (js ''('' @ r))"
      by (simp add: viewToHash_uscode_def startsWith_def js_def)
  qed
  show ?thesis unfolding c using g by (simp add: parseHash_uscode_def)
qed

theorem parseHash_uscode_scenarios_and_order_witness:
  "parseHash_uscode (js ''#t42/s1396A/def/medical-assistance'')
     = SectionU (js ''42'') (js ''1396A'') (Some (js ''def/medical-assistance'')) \<and>
   parseHash_uscode (js ''#t42/s1396A(a)(10)'')
     = SectionU (js ''42'') (js ''1396A'') (Some (js ''(a)(10)'')) \<and>
   parseHash_uscode (js ''#t42/s1396A'') = SectionU (js ''42'') (js ''1396A'') None \<and>
   parseHash_uscode (js ''#t42'') = TitleU (js ''42'') \<and>
   defMatch (js ''t17/s101/def/x'') = Some (js ''17'', js ''101'', js ''x'') \<and>
   parseHash_uscode (js ''#t17/s101/def/x'')
     = SectionU (js ''17'') (js ''101'') (Some (js ''def/'' @ js ''x'')) \<and>
   defMatch (js ''t17/s106(a)'') = None \<and>
   secParenMatch (js ''t17/s106(a)'') = Some (js ''17'', js ''106'', js ''(a)'') \<and>
   parseHash_uscode (js ''#t17/s106(a)'') = SectionU (js ''17'') (js ''106'') (Some (js ''(a)'')) \<and>
   defMatch (js ''t17/s106'') = None \<and> secParenMatch (js ''t17/s106'') = None \<and>
   secMatch (js ''t17/s106'') = Some (js ''17'', js ''106'') \<and>
   parseHash_uscode (js ''/t17/s106'') = HomeU \<and>
   parseHash_uscode (js ''#/t17/s106'') = SectionU (js ''17'') (js ''106'') None \<and>
   defMatch (js ''t17'') = None \<and> secParenMatch (js ''t17'') = None \<and>
   secMatch (js ''t17'') = None \<and> titleMatch (js ''t17'') = Some (js ''17'') \<and>
   parseHash_uscode (js ''#t17'') = TitleU (js ''17'') \<and>
   defMatch (js ''t9x'') = None \<and> secParenMatch (js ''t9x'') = None \<and>
   secMatch (js ''t9x'') = None \<and> titleMatch (js ''t9x'') = None \<and>
   parseHash_uscode (js ''#t9x'') = HomeU"
proof -
  have i: "isIdent (js ''42'') \<and> isIdent (js ''1396A'')" by (simp add: codec_eval_defs)
  have d1: "dotPlusToEnd (js ''medical-assistance'')" by (simp add: codec_eval_defs)
  have d2: "dotPlusToEnd (js ''a)(10)'')" by (simp add: codec_eval_defs)
  note G = parseHash_uscode_scenarios_and_order
        [where tn = "js ''42''" and sn = "js ''1396A''" and sl = "js ''medical-assistance''"
           and r = "js ''a)(10)''",
         THEN conjunct2, THEN conjunct2, THEN conjunct2, THEN conjunct2, THEN conjunct2,
         THEN conjunct2, THEN conjunct2, THEN conjunct1, THEN mp, OF i]
  have g1: "parseHash_uscode (js ''#t42/s1396A/def/medical-assistance'')
     = SectionU (js ''42'') (js ''1396A'') (Some (js ''def/medical-assistance''))"
    using G d1 by (simp add: js_def)
  have g2: "parseHash_uscode (js ''#t42/s1396A(a)(10)'')
     = SectionU (js ''42'') (js ''1396A'') (Some (js ''(a)(10)''))"
    using G d2 by (simp add: js_def)
  have g3: "parseHash_uscode (js ''#t42/s1396A'') = SectionU (js ''42'') (js ''1396A'') None"
    using G by (simp add: js_def)
  have g4: "parseHash_uscode (js ''#t42'') = TitleU (js ''42'')"
    using G by (simp add: js_def)
  have a: "stripHashPrefix (js ''#t17/s101/def/x'') = js ''t17/s101/def/x'' \<and>
           js ''t17/s101/def/x'' \<noteq> []" by (simp add: codec_eval_defs)
  have a1: "defMatch (js ''t17/s101/def/x'') = Some (js ''17'', js ''101'', js ''x'')"
    by (simp add: codec_eval_defs)
  have b: "stripHashPrefix (js ''#t17/s106(a)'') = js ''t17/s106(a)'' \<and>
           js ''t17/s106(a)'' \<noteq> []" by (simp add: codec_eval_defs)
  have b1: "defMatch (js ''t17/s106(a)'') = None" by (simp add: codec_eval_defs)
  have b2: "secParenMatch (js ''t17/s106(a)'') = Some (js ''17'', js ''106'', js ''(a)'')"
    by (simp add: codec_eval_defs)
  have e: "stripHashPrefix (js ''#/t17/s106'') = js ''t17/s106'' \<and> js ''t17/s106'' \<noteq> []"
    by (simp add: codec_eval_defs)
  have e1: "defMatch (js ''t17/s106'') = None" "secParenMatch (js ''t17/s106'') = None"
    "secMatch (js ''t17/s106'') = Some (js ''17'', js ''106'')" by (simp_all add: codec_eval_defs)
  have f: "stripHashPrefix (js ''#t17'') = js ''t17'' \<and> js ''t17'' \<noteq> []"
    by (simp add: codec_eval_defs)
  have f1: "defMatch (js ''t17'') = None" "secParenMatch (js ''t17'') = None"
    "secMatch (js ''t17'') = None" "titleMatch (js ''t17'') = Some (js ''17'')"
    by (simp_all add: codec_eval_defs)
  have c: "stripHashPrefix (js ''#t9x'') = js ''t9x'' \<and> js ''t9x'' \<noteq> []" by (simp add: codec_eval_defs)
  have c1: "defMatch (js ''t9x'') = None" "secParenMatch (js ''t9x'') = None"
    "secMatch (js ''t9x'') = None" "titleMatch (js ''t9x'') = None" by (simp_all add: codec_eval_defs)
  have h: "stripHashPrefix (js ''/t17/s106'') = js ''/t17/s106'' \<and> js ''/t17/s106'' \<noteq> []"
    by (simp add: codec_eval_defs)
  have h1: "defMatch (js ''/t17/s106'') = None" "secParenMatch (js ''/t17/s106'') = None"
    "secMatch (js ''/t17/s106'') = None" "titleMatch (js ''/t17/s106'') = None"
    by (simp_all add: codec_eval_defs)
  note A = parseHash_uscode_scenarios_and_order
        [where hash = "js ''#t17/s101/def/x''" and h = "js ''t17/s101/def/x''"
           and t = "js ''17''" and s = "js ''101''" and g = "js ''x''",
         THEN conjunct2, THEN conjunct2, THEN conjunct2, THEN conjunct2, THEN conjunct2,
         THEN conjunct2, THEN conjunct2, THEN conjunct2, THEN mp, OF a]
  note B = parseHash_uscode_scenarios_and_order
        [where hash = "js ''#t17/s106(a)''" and h = "js ''t17/s106(a)''"
           and t = "js ''17''" and s = "js ''106''" and a = "js ''(a)''",
         THEN conjunct2, THEN conjunct2, THEN conjunct2, THEN conjunct2, THEN conjunct2,
         THEN conjunct2, THEN conjunct2, THEN conjunct2, THEN mp, OF b]
  note E = parseHash_uscode_scenarios_and_order
        [where hash = "js ''#/t17/s106''" and h = "js ''t17/s106''"
           and t = "js ''17''" and s = "js ''106''",
         THEN conjunct2, THEN conjunct2, THEN conjunct2, THEN conjunct2, THEN conjunct2,
         THEN conjunct2, THEN conjunct2, THEN conjunct2, THEN mp, OF e]
  note F = parseHash_uscode_scenarios_and_order
        [where hash = "js ''#t17''" and h = "js ''t17''" and t = "js ''17''",
         THEN conjunct2, THEN conjunct2, THEN conjunct2, THEN conjunct2, THEN conjunct2,
         THEN conjunct2, THEN conjunct2, THEN conjunct2, THEN mp, OF f]
  note C = parseHash_uscode_scenarios_and_order
        [where hash = "js ''#t9x''" and h = "js ''t9x''",
         THEN conjunct2, THEN conjunct2, THEN conjunct2, THEN conjunct2, THEN conjunct2,
         THEN conjunct2, THEN conjunct2, THEN conjunct2, THEN mp, OF c]
  note H = parseHash_uscode_scenarios_and_order
        [where hash = "js ''/t17/s106''" and h = "js ''/t17/s106''",
         THEN conjunct2, THEN conjunct2, THEN conjunct2, THEN conjunct2, THEN conjunct2,
         THEN conjunct2, THEN conjunct2, THEN conjunct2, THEN mp, OF h]
  have ra: "parseHash_uscode (js ''#t17/s101/def/x'')
     = SectionU (js ''17'') (js ''101'') (Some (js ''def/'' @ js ''x''))"
    using A a1 by blast
  have rb: "parseHash_uscode (js ''#t17/s106(a)'')
     = SectionU (js ''17'') (js ''106'') (Some (js ''(a)''))"
    using B b1 b2 by blast
  have re: "parseHash_uscode (js ''#/t17/s106'') = SectionU (js ''17'') (js ''106'') None"
    using E e1 by blast
  have rf: "parseHash_uscode (js ''#t17'') = TitleU (js ''17'')"
    using F f1 by blast
  have rc: "parseHash_uscode (js ''#t9x'') = HomeU"
    using C c1 by blast
  have rh: "parseHash_uscode (js ''/t17/s106'') = HomeU"
    using H h1 by blast
  show ?thesis
    using g1 g2 g3 g4 a1 b1 b2 e1 f1 c1 ra rb re rf rc rh by blast
qed

lemmas char_class_defs =
  isDigit_def isUpper_def isLower_def isWordChar_def isLineTerminator_def isWhiteSpace_def

lemmas path_eval_defs =
  buildParaMetaMap_def buildParaMetaMap_uscode_def STRUCTURAL_TYPES_def js_def
  spanOpen_def spanClose_def startsWith_def splitBlockHtml_def popStack_def trim_def
  setLength_def joinStack_def block_b_def block_1_def block_plain_def Let_def
  isDigit_def isUpper_def isLower_def isWordChar_def isLineTerminator_def isWhiteSpace_def

lemmas sibling_eval_defs =
  designated_def hasDesignator_def designator_def siblingsDistinct_def parentOf_def
  prefixFree_def block_c_def block_b1_def All_less_Suc

text \<open>
  In the Title 17 viewer, contiguous indent depths give a block at depth \<open>d\<close> a path of
  exactly \<open>d + 1\<close> designator tokens, the last of which is its own.
\<close>

lemma buildParaMetaMap_contiguous_depth:
  assumes "contiguous (- 1) (map indent (filter hasDesignator content))"
    and "(j, m) \<in> set (buildParaMetaMap content sectionNum)"
  shows "\<exists>toks. length toks = nat (indent (content ! j)) + 1 \<and> path m = concat toks
           \<and> last toks = designator (content ! j)
           \<and> set toks \<subseteq> designator ` set (filter hasDesignator content)"
proof -
  have "map fst ([] :: (int \<times> jsstring) list) = map int [0..<0]" by simp
  from buildLoop_contiguous_tokens[OF this, where bs=content and sec=sectionNum and j=j and m=m and i=0] assms
  show ?thesis by (simp add: buildParaMetaMap_def)
qed

text \<open>
  Claim C3: on the two-block sequence of the specification (a subsection \<open>(b)\<close> at
  indent 0, then a paragraph \<open>(1)\<close> at indent 1) the paths are \<open>(b)\<close> and \<open>(b)(1)\<close>.
  The builder of the Title 17 viewer returns them. The builder of the all-titles viewer
  takes the depth to be the indent minus one, sets the length of its stack to \<open>-1\<close> at the
  first block, and throws a RangeError; it returns the two paths when the indents of the
  two blocks are 1 and 2.
\<close>

theorem buildParaMetaMap_scenario:
  "buildParaMetaMap_uscode [block_b, block_1] sectionNum = Inl RangeError \<and>
   map_sum id (map (path \<circ> snd))
     (buildParaMetaMap_uscode [block_b\<lparr>indent := 1\<rparr>, block_1\<lparr>indent := 2\<rparr>] sectionNum)
     = Inr [js ''(b)'', js ''(b)(1)''] \<and>
   map (path \<circ> snd) (buildParaMetaMap [block_b, block_1] sectionNum)
     = [js ''(b)'', js ''(b)(1)'']"
  by (simp add: path_eval_defs)

text \<open>
  Claim C4, as stated: the anchor ids of the entries are pairwise distinct. Two sibling
  blocks with the same designator receive the same path, hence the same id. So do a
  paragraph \<open>(1)\<close> under a subsection \<open>(b)\<close> and a subsection whose designator is
  \<open>(b)(1)\<close>, where no two siblings have the same designator: the path is the designators
  written one behind the other, with nothing between them.
\<close>

theorem anchorId_unique_counterexample:
  "\<not> distinct (map (anchorId \<circ> snd) (buildParaMetaMap [block_1, block_1] (js ''106''))) \<and>
   siblingsDistinct (designated [block_b, block_1, block_b1]) \<and>
   \<not> distinct (map (anchorId \<circ> snd) (buildParaMetaMap [block_b, block_1, block_b1] (js ''106'')))"
  by (simp add: path_eval_defs sibling_eval_defs)

text \<open>
  Claim C4, amended: let no designator of the section be empty or the beginning of
  another one. Then the anchor ids of the entries are pairwise distinct if, and only if,
  no two blocks with the same parent (the nearest earlier block of smaller indent), or
  both without one, have the same designator.
\<close>

theorem anchorId_unique_iff_siblings_distinct:
  assumes "prefixFree (map snd (designated content))"
  shows "distinct (map (anchorId \<circ> snd) (buildParaMetaMap content sectionNum))
           \<longleftrightarrow> siblingsDistinct (designated content)"
proof -
  let ?ds = "designated content"
  let ?p = "\<lambda>j. concat (chainToks ?ds j)"
  have ids: "distinct (map (anchorId \<circ> snd) (buildParaMetaMap content sectionNum))
      \<longleftrightarrow> distinct (map ?p [0..<length ?ds])"
    unfolding buildParaMetaMap_def buildLoop_ids_distinct_iff
    using paths_chainToks[of content sectionNum] by (simp add: buildParaMetaMap_def)
  show ?thesis unfolding ids
  proof
    assume sd: "siblingsDistinct ?ds"
    have "inj_on ?p (set [0..<length ?ds])"
    proof (rule inj_onI)
      fix i j assume i: "i \<in> set [0..<length ?ds]" and j: "j \<in> set [0..<length ?ds]"
        and e: "?p i = ?p j"
      then have il: "i < length ?ds" and jl: "j < length ?ds" by simp_all
      have "chainToks ?ds i = chainToks ?ds j"
        using assms chainToks_subset[OF il] chainToks_subset[OF jl] e
        by (rule concat_prefixFree)
      with sd il jl show "i = j" by (rule chainToks_inj)
    qed
    then show "distinct (map ?p [0..<length ?ds])" by (simp add: distinct_map)
  next
    assume d: "distinct (map ?p [0..<length ?ds])"
    show "siblingsDistinct ?ds"
      unfolding siblingsDistinct_def
    proof (intro allI impI notI)
      fix j i assume j: "j < length ?ds" and i: "i < j"
        and par: "parentOf ?ds i = parentOf ?ds j" and t: "snd (?ds ! i) = snd (?ds ! j)"
      have "chainToks ?ds i = chainToks ?ds j"
        by (simp add: chainToks_parent[of ?ds i] chainToks_parent[of ?ds j] par t)
      then have "?p i = ?p j" by simp
      moreover have "inj_on ?p (set [0..<length ?ds])" using d by (simp add: distinct_map)
      ultimately have "i = j" using i j by (auto dest: inj_onD)
      with i show False by simp
    qed
  qed
qed

theorem anchorId_unique_iff_siblings_distinct_witness:
  "map (anchorId \<circ> snd) (buildParaMetaMap [block_b, block_1, block_plain, block_c, block_1] (js ''106''))
     = [js ''p-106(b)'', js ''p-106(b)(1)'', js ''p-106(c)'', js ''p-106(c)(1)''] \<and>
   distinct (map (anchorId \<circ> snd)
     (buildParaMetaMap [block_b, block_1, block_plain, block_c, block_1] (js ''106'')))"
proof -
  let ?c = "[block_b, block_1, block_plain, block_c, block_1]"
  have d: "designated ?c = [(0, js ''(b)''), (1, js ''(1)''), (0, js ''(c)''), (1, js ''(1)'')]"
    by (simp add: path_eval_defs sibling_eval_defs)
  have h1: "prefixFree (map snd (designated ?c))" unfolding d by (simp add: prefixFree_def startsWith_def js_def)
  have h2: "siblingsDistinct (designated ?c)" unfolding d
    by (simp add: siblingsDistinct_def parentOf_def All_less_Suc js_def)
  have 1: "distinct (map (anchorId \<circ> snd) (buildParaMetaMap ?c (js ''106'')))"
    using anchorId_unique_iff_siblings_distinct [OF h1, of "js ''106''"] h2 by simp
  have 2: "map (anchorId \<circ> snd) (buildParaMetaMap ?c (js ''106''))
     = [js ''p-106(b)'', js ''p-106(b)(1)'', js ''p-106(c)'', js ''p-106(c)(1)'']"
    by (simp add: path_eval_defs block_c_def)
  show ?thesis using 1 2 by blast
qed

text \<open>
  Claim C5: a structural block whose markup does not begin with a designator span
  \<open><span class="num">token</span>\<close> (the token free of \<open><\<close>) receives no entry in the map
  of the Title 17 viewer, and the entries of the other blocks are those of the sequence
  without it, renumbered: it adds no token to a later path. The builder has no failing
  step, and the view renders the block as plain content.
\<close>

theorem malformed_block_skipped:
  assumes "type b \<in> STRUCTURAL_TYPES"
    and "\<not> (\<exists>tok rest. 60 \<notin> set tok \<and> html b = spanOpen @ tok @ spanClose @ rest)"
  shows "map_of (buildParaMetaMap (xs @ b # ys) sectionNum) (length xs) = None \<and>
         buildParaMetaMap (xs @ b # ys) sectionNum
           = map (shiftFrom (length xs)) (buildParaMetaMap (xs @ ys) sectionNum) \<and>
         renderBlock annotateTerms (buildParaMetaMap (xs @ b # ys) sectionNum) (length xs) b
           = PlainBlock (annotateTerms (html b))"
proof -
  from assms(2) have n: "splitBlockHtml (html b) = None"
    by (simp add: splitBlockHtml_None_iff)
  then have s: "type b \<notin> STRUCTURAL_TYPES \<or> splitBlockHtml (html b) = None" by simp
  have 1: "map_of (buildParaMetaMap (xs @ b # ys) sectionNum) (length xs) = None"
    using map_of_buildLoop_None[OF s, where sec=sectionNum and i=0 and stack="[]" and xs=xs and ys=ys]
    by (simp add: buildParaMetaMap_def)
  have 2: "buildParaMetaMap (xs @ b # ys) sectionNum
           = map (shiftFrom (length xs)) (buildParaMetaMap (xs @ ys) sectionNum)"
    using buildLoop_skip[OF s, where sec=sectionNum and i=0 and stack="[]" and xs=xs and ys=ys]
    by (simp add: buildParaMetaMap_def)
  show ?thesis using 1 2 by (simp add: renderBlock_def)
qed

theorem malformed_block_skipped_witness:
  "type block_plain \<in> STRUCTURAL_TYPES \<and>
   \<not> (\<exists>tok rest. 60 \<notin> set tok \<and> html block_plain = spanOpen @ tok @ spanClose @ rest) \<and>
   map_of (buildParaMetaMap ([block_b] @ block_plain # [block_1]) (js ''106'')) (length [block_b])
     = None \<and>
   map (path \<circ> snd) (buildParaMetaMap ([block_b] @ block_plain # [block_1]) (js ''106''))
     = [js ''(b)'', js ''(b)(1)''] \<and>
   renderBlock id (buildParaMetaMap ([block_b] @ block_plain # [block_1]) (js ''106''))
     (length [block_b]) block_plain = PlainBlock (js ''(2) text'')"
proof -
  have t: "type block_plain \<in> STRUCTURAL_TYPES" by (simp add: path_eval_defs)
  have "splitBlockHtml (html block_plain) = None" by (simp add: path_eval_defs)
  then have h: "\<not> (\<exists>tok rest. 60 \<notin> set tok
      \<and> html block_plain = spanOpen @ tok @ spanClose @ rest)"
    by (simp add: splitBlockHtml_None_iff)
  note T = malformed_block_skipped [OF t h, of "[block_b]" "[block_1]" "js ''106''" id]
  have e: "buildParaMetaMap ([block_b] @ block_plain # [block_1]) (js ''106'')
      = map (shiftFrom (length [block_b])) (buildParaMetaMap ([block_b] @ [block_1]) (js ''106''))"
    using T by blast
  have p: "map (path \<circ> snd) (buildParaMetaMap ([block_b] @ block_plain # [block_1]) (js ''106''))
      = [js ''(b)'', js ''(b)(1)'']"
    unfolding e by (simp add: path_eval_defs shiftFrom_def)
  have r: "PlainBlock (id (html block_plain)) = PlainBlock (js ''(2) text'')"
    by (simp add: block_plain_def)
  have n: "map_of (buildParaMetaMap ([block_b] @ block_plain # [block_1]) (js ''106''))
      (length [block_b]) = None"
    using T by blast
  have "renderBlock id (buildParaMetaMap ([block_b] @ block_plain # [block_1]) (js ''106''))
      (length [block_b]) block_plain = PlainBlock (id (html block_plain))"
    using T by blast
  then have q: "renderBlock id (buildParaMetaMap ([block_b] @ block_plain # [block_1]) (js ''106''))
      (length [block_b]) block_plain = PlainBlock (js ''(2) text'')"
    unfolding r .
  show ?thesis using t h n p q by blast
qed

lemmas annot_eval_defs =
  buildTermAnnotator_def sortedTerms_def mkTermDef_def annotate_def splitTags_def matchTag_def
  matchAt_def termItems_def wordBoundary_def isWordAt_def nextChar_def matched_def lastChar_def
  wrapMatch_def infoByLower_def toLowerCase_def asciiLower_def canonicalize_def js_def Let_def
  defSpan_def rewriteText_def rewriteAfter_def annotatedPrefix_def
  sameLetters_def termMatchesAt_def caseKeepsSpace_def
  isDigit_def isUpper_def isLower_def isWordChar_def isLineTerminator_def isWhiteSpace_def

text \<open>
  Claim C6, as stated: every tag segment, a maximal substring of the form \<open><...>\<close>, is
  unchanged in the output, and a term inside an attribute value is never wrapped. The
  splitter ends a tag at the first \<open>>\<close>: in \<open><a title="x>author">\<close> it ends inside the
  attribute value, and the term behind it is wrapped.
\<close>

theorem annotate_tags_counterexample:
  "buildTermAnnotator id id [mkTermDef ''author'' ''author'' ''101'']
     (js ''<a title=\"x>author\">y</a>'')
   = js ''<a title=\"x><span class=\"def-term\" data-slug=\"author\" data-def-source=\"101\">author</span>\">y</a>''"
  by (simp add: annot_eval_defs)

text \<open>
  Claim C6, amended: the markup is an alternation of texts and tags, a tag being \<open><\<close>, at
  least one character other than \<open>>\<close>, and the first \<open>>\<close>; no text contains such a tag.
  The output is the same alternation with every tag unchanged and every text rewritten on
  its own. A term in an attribute value is left alone when the value lies inside a tag
  in this sense, that is, when no \<open>>\<close> stands in front of it in the tag.
\<close>

theorem annotate_keeps_tags:
  "markup = interleave (evens (splitTags markup)) (odds (splitTags markup)) \<and>
   length (evens (splitTags markup)) = length (odds (splitTags markup)) + 1 \<and>
   (\<forall>t \<in> set (odds (splitTags markup)). isTag t) \<and>
   (\<forall>x \<in> set (evens (splitTags markup)). \<not> hasTag x) \<and>
   buildTermAnnotator lc uc termDefs markup
     = interleave (map (rewriteText lc uc termDefs) (evens (splitTags markup)))
         (odds (splitTags markup))"
  using splitTags_structure[of markup] buildTermAnnotator_interleave[of lc uc termDefs markup]
  by blast

theorem annotate_keeps_tags_witness:
  "odds (splitTags (js ''<b class=\"author\">the author</b>''))
     = [js ''<b class=\"author\">'', js ''</b>''] \<and>
   isTag (js ''<b class=\"author\">'') \<and>
   buildTermAnnotator id id [mkTermDef ''author'' ''author'' ''101'']
     (js ''<b class=\"author\">the author</b>'')
   = js ''<b class=\"author\">the <span class=\"def-term\" data-slug=\"author\" data-def-source=\"101\">author</span></b>''"
proof -
  let ?m = "js ''<b class=\"author\">the author</b>''"
  let ?d = "[mkTermDef ''author'' ''author'' ''101'']"
  note T = annotate_keeps_tags [of ?m id id ?d]
  have s: "splitTags ?m = [[], js ''<b class=\"author\">'', js ''the author'', js ''</b>'', []]"
    by (simp add: splitTags_def matchTag_def js_def)
  have o: "odds (splitTags ?m) = [js ''<b class=\"author\">'', js ''</b>'']"
    unfolding s by simp
  have t: "isTag (js ''<b class=\"author\">'')" using T o by simp
  have r: "map (rewriteText id id ?d) (evens (splitTags ?m))
      = [[], js ''the <span class=\"def-term\" data-slug=\"author\" data-def-source=\"101\">author</span>'', []]"
    unfolding s by (simp add: annot_eval_defs)
  have "buildTermAnnotator id id ?d ?m
      = interleave (map (rewriteText id id ?d) (evens (splitTags ?m))) (odds (splitTags ?m))"
    using T by blast
  then have b: "buildTermAnnotator id id ?d ?m
      = js ''<b class=\"author\">the <span class=\"def-term\" data-slug=\"author\" data-def-source=\"101\">author</span></b>''"
    unfolding r o by (simp add: js_def)
  show ?thesis using o t b by blast
qed

text \<open>
  Claim C7, as stated: when one term is a proper substring of another, a text that
  contains the longer phrase gets one span around the whole phrase and no span for the
  shorter term inside it. The search takes the leftmost match, and a match needs word
  boundaries. With the terms \<open>a a\<close> and \<open>a a b\<close>, the text \<open>a a a b\<close> contains the longer
  phrase, but the shorter term matches first, one word earlier, and takes a part of it.
  With the terms \<open>work\<close> and \<open>art work\<close>, the text \<open>smart work\<close> contains the longer phrase
  without a word boundary in front, and the shorter term is wrapped inside it. With the
  terms \<open>work\<close> and \<open>joint work\<close>, the text \<open>a joint  work\<close>, where two spaces stand between
  the words, is matched by the pattern of the longer term, but the table of slugs does
  not know the matched text, and it is left without any span.
\<close>

theorem longer_term_counterexample:
  "buildTermAnnotator id id
     [mkTermDef ''a a'' ''short'' ''101'', mkTermDef ''a a b'' ''long'' ''101'']
     (js ''a a a b'')
   = js ''<span class=\"def-term\" data-slug=\"short\" data-def-source=\"101\">a a</span> a b'' \<and>
   buildTermAnnotator id id
     [mkTermDef ''work'' ''work'' ''101'', mkTermDef ''art work'' ''art-work'' ''101'']
     (js ''smart work'')
   = js ''smart <span class=\"def-term\" data-slug=\"work\" data-def-source=\"101\">work</span>'' \<and>
   buildTermAnnotator id id
     [mkTermDef ''work'' ''work'' ''101'', mkTermDef ''joint work'' ''joint-work'' ''101'']
     (js ''a joint  work'')
   = js ''a joint  work''"
  by (simp add: annot_eval_defs)

text \<open>
  Claim C7, amended: take any list of definition records, two records of it of which the
  term of one is a proper substring of the term of the other, the longer with a slug, and
  a text between the tags of the markup. Take an occurrence in it that is spelled as the
  longer term up to case, stands between word boundaries, and at whose first character
  the scan from left to right comes to stand, that is, no earlier match reaches into it.
  Let every record other than the shorter one that has a term at least as long as the
  longer term and matches at the occurrence be the longer term up to case. Then the
  occurrence gets exactly one span, around the whole of it, with the slug and source of a
  record whose term is the longer term in lower case, and the scan goes on behind the
  occurrence: no span for the shorter term lies inside it, also when the shorter term
  matches at the same position. The tags are unchanged and every text between them is
  rewritten on its own.
\<close>

theorem longer_term_wrapped_once:
  assumes host: "caseKeepsSpace uc"
    and recs: "dL \<in> set termDefs" "dS \<in> set termDefs"
    and sub: "\<exists>u v. termText dL = u @ termText dS @ v \<and> (u \<noteq> [] \<or> v \<noteq> [])"
    and slug: "slug dL \<noteq> []"
    and seg: "pre @ m @ post \<in> set (evens (splitTags markup))"
    and sp: "sameLetters uc m (termText dL)" "toLowerCase lc m = toLowerCase lc (termText dL)"
    and reach: "annotatedPrefix lc uc termDefs (pre @ m @ post) (length pre) = Some out"
    and b1: "wordBoundary (lastChar None pre) (m @ post)"
    and b2: "wordBoundary (Some (last m)) post"
    and others: "\<forall>d\<in>set termDefs. d \<noteq> dS \<longrightarrow> termText d \<noteq> [] \<longrightarrow> slug d \<noteq> [] \<longrightarrow>
        length (termText dL) \<le> length (termText d) \<longrightarrow>
        termMatchesAt uc (termText d) (lastChar None pre) (m @ post) \<longrightarrow>
        sameLetters uc (termText d) (termText dL)"
  shows "buildTermAnnotator lc uc termDefs markup
           = interleave (map (rewriteText lc uc termDefs) (evens (splitTags markup)))
               (odds (splitTags markup)) \<and>
         (\<exists>d\<in>set termDefs. toLowerCase lc (termText d) = toLowerCase lc (termText dL) \<and>
            rewriteText lc uc termDefs (pre @ m @ post)
              = out @ defSpan (slug d) (source d) m
                  @ rewriteAfter lc uc termDefs (last m) post)"
proof
  show "buildTermAnnotator lc uc termDefs markup
           = interleave (map (rewriteText lc uc termDefs) (evens (splitTags markup)))
               (odds (splitTags markup))"
    by (rule buildTermAnnotator_interleave)
  from sub have len: "length (termText dS) < length (termText dL)" by auto
  then have ne: "termText dL \<noteq> []" by auto
  have mem: "dL \<in> set (sortedTerms termDefs)" using recs(1) ne slug by (simp add: set_sortedTerms)
  have comp: "\<forall>d'\<in>set (sortedTerms termDefs).
        length (termText dL) \<le> length (termText d') \<longrightarrow>
        termMatchesAt uc (termText d') (lastChar None pre) (m @ post) \<longrightarrow>
        sameLetters uc (termText d') (termText dL)"
    using others len by (auto simp: set_sortedTerms)
  from infoByLower_member[OF mem, of lc] obtain d where
    d: "d \<in> set (sortedTerms termDefs)"
    and low: "toLowerCase lc (termText d) = toLowerCase lc (termText dL)"
    and info: "infoByLower lc (sortedTerms termDefs) (toLowerCase lc (termText dL))
                 = Some (slug d, source d)" by blast
  have info': "infoByLower lc (sortedTerms termDefs) (toLowerCase lc m) = Some (slug d, source d)"
    using info sp(2) by simp
  have "rewriteText lc uc termDefs (pre @ m @ post)
      = out @ defSpan (slug d) (source d) m @ rewriteAfter lc uc termDefs (last m) post"
    using host mem sp(1) reach b1 b2 comp info' by (rule annotate_occurrence)
  moreover have "d \<in> set termDefs" using d by (simp add: set_sortedTerms)
  ultimately show "\<exists>d\<in>set termDefs. toLowerCase lc (termText d) = toLowerCase lc (termText dL) \<and>
            rewriteText lc uc termDefs (pre @ m @ post)
              = out @ defSpan (slug d) (source d) m
                  @ rewriteAfter lc uc termDefs (last m) post"
    using low by blast
qed

theorem longer_term_wrapped_once_witness:
  "buildTermAnnotator id id
     [mkTermDef ''joint'' ''joint'' ''101'', mkTermDef ''joint work'' ''joint-work'' ''101'',
      mkTermDef ''work'' ''work'' ''101'']
     (js ''<p>a work and a Joint Work, etc</p>'')
   = js ''<p>a <span class=\"def-term\" data-slug=\"work\" data-def-source=\"101\">work</span> and a <span class=\"def-term\" data-slug=\"joint-work\" data-def-source=\"101\">Joint Work</span>, etc</p>''"
proof -
  let ?dS = "mkTermDef ''joint'' ''joint'' ''101''"
  let ?dL = "mkTermDef ''joint work'' ''joint-work'' ''101''"
  let ?dW = "mkTermDef ''work'' ''work'' ''101''"
  let ?defs = "[?dS, ?dL, ?dW]"
  let ?markup = "js ''<p>a work and a Joint Work, etc</p>''"
  let ?pre = "js ''a work and a ''"
  let ?m = "js ''Joint Work''"
  let ?post = "js '', etc''"
  let ?out = "js ''a <span class=\"def-term\" data-slug=\"work\" data-def-source=\"101\">work</span> and a ''"
  have parts: "splitTags ?markup = [[], js ''<p>'', ?pre @ ?m @ ?post, js ''</p>'', []]"
    by (simp add: splitTags_def matchTag_def js_def)
  have h0: "caseKeepsSpace id" by (simp add: caseKeepsSpace_def)
  have h1: "?dL \<in> set ?defs" and h2: "?dS \<in> set ?defs" by simp_all
  have "termText ?dL = [] @ termText ?dS @ js '' work'' \<and> ([] \<noteq> [] \<or> js '' work'' \<noteq> [])"
    by (simp add: mkTermDef_def js_def)
  then have h3: "\<exists>u v. termText ?dL = u @ termText ?dS @ v \<and> (u \<noteq> [] \<or> v \<noteq> [])"
    by blast
  have h4: "slug ?dL \<noteq> []" by (simp add: mkTermDef_def js_def)
  have h5: "?pre @ ?m @ ?post \<in> set (evens (splitTags ?markup))" unfolding parts by simp
  have h6: "sameLetters id ?m (termText ?dL)" by (simp add: annot_eval_defs)
  have h7: "toLowerCase id ?m = toLowerCase id (termText ?dL)" by (simp add: annot_eval_defs)
  have h8: "annotatedPrefix id id ?defs (?pre @ ?m @ ?post) (length ?pre) = Some ?out"
    by (simp add: annot_eval_defs)
  have h9: "wordBoundary (lastChar None ?pre) (?m @ ?post)" by (simp add: annot_eval_defs)
  have h10: "wordBoundary (Some (last ?m)) ?post" by (simp add: annot_eval_defs)
  have h11: "\<forall>d\<in>set ?defs. d \<noteq> ?dS \<longrightarrow> termText d \<noteq> [] \<longrightarrow> slug d \<noteq> [] \<longrightarrow>
        length (termText ?dL) \<le> length (termText d) \<longrightarrow>
        termMatchesAt id (termText d) (lastChar None ?pre) (?m @ ?post) \<longrightarrow>
        sameLetters id (termText d) (termText ?dL)"
    by (simp add: mkTermDef_def js_def sameLetters_def)
  note T = longer_term_wrapped_once [OF h0 h1 h2 h3 h4 h5 h6 h7 h8 h9 h10 h11]
  from T obtain d where d: "d \<in> set ?defs"
    and low: "toLowerCase id (termText d) = toLowerCase id (termText ?dL)"
    and eq: "rewriteText id id ?defs (?pre @ ?m @ ?post)
              = ?out @ defSpan (slug d) (source d) ?m @ rewriteAfter id id ?defs (last ?m) ?post"
    by blast
  have "d = ?dL" using d low by (auto simp: mkTermDef_def js_def toLowerCase_def asciiLower_def isUpper_def)
  then have sl: "slug d = js ''joint-work''" "source d = js ''101''" by (simp_all add: mkTermDef_def)
  have r: "rewriteAfter id id ?defs (last ?m) ?post = ?post" by (simp add: annot_eval_defs)
  have e: "rewriteText id id ?defs [] = []" by (simp add: annot_eval_defs)
  have "buildTermAnnotator id id ?defs ?markup
      = js ''<p>'' @ rewriteText id id ?defs (?pre @ ?m @ ?post) @ js ''</p>''"
    using T unfolding parts by (simp add: e)
  then show ?thesis unfolding eq sl r by (simp add: js_def defSpan_def)
qed

text \<open>
  Claim C8, as stated: when two records have terms that are equal up to case, an
  occurrence gets one span, with the slug and source of the record that comes first in
  the merge order. The table from the lower-case term to slug and source is built with
  \<open>new Map\<close>, where a later entry replaces an earlier one with the same key: the span
  carries the slug and source of the record that comes last.
\<close>

theorem colliding_terms_counterexample:
  "buildTermAnnotator id id
     [mkTermDef ''work'' ''work-101'' ''101'', mkTermDef ''work'' ''work-115e'' ''115e'']
     (js ''a work'')
   = js ''a <span class=\"def-term\" data-slug=\"work-115e\" data-def-source=\"115e\">work</span>''"
  by (simp add: annot_eval_defs)

text \<open>
  Claim C8, amended: take any list of definition records in its merge order, a record of
  it with a term and a slug, and the last record with a term and a slug whose term is the
  same in lower case; let the records in front of it with that lower-case term have terms
  of its length. Take a text between the tags of the markup and an occurrence in it that
  is spelled as the term of the first record up to case, stands between word boundaries,
  and at whose first character the scan from left to right comes to stand. Let every
  record that has a term at least as long and matches at the occurrence be that term up
  to case. Then the occurrence gets exactly one span, whose slug and source are those of
  the last of the colliding records, not of the first, and the scan goes on behind the
  occurrence: the spans neither overlap nor nest.
\<close>

theorem colliding_terms_last_record_wins:
  assumes host: "caseKeepsSpace uc"
    and first: "d1 \<in> set termDefs" "termText d1 \<noteq> []" "slug d1 \<noteq> []"
    and order: "termDefs = A @ d2 # B"
    and second: "termText d2 \<noteq> []" "slug d2 \<noteq> []"
    and coll: "toLowerCase lc (termText d2) = toLowerCase lc (termText d1)"
    and lastOne: "\<forall>d\<in>set B. termText d \<noteq> [] \<longrightarrow> slug d \<noteq> [] \<longrightarrow>
        toLowerCase lc (termText d) \<noteq> toLowerCase lc (termText d1)"
    and sameLength: "\<forall>d\<in>set A. termText d \<noteq> [] \<longrightarrow> slug d \<noteq> [] \<longrightarrow>
        toLowerCase lc (termText d) = toLowerCase lc (termText d1) \<longrightarrow>
        length (termText d) = length (termText d2)"
    and seg: "pre @ m @ post \<in> set (evens (splitTags markup))"
    and sp: "sameLetters uc m (termText d1)" "toLowerCase lc m = toLowerCase lc (termText d1)"
    and reach: "annotatedPrefix lc uc termDefs (pre @ m @ post) (length pre) = Some out"
    and b1: "wordBoundary (lastChar None pre) (m @ post)"
    and b2: "wordBoundary (Some (last m)) post"
    and others: "\<forall>d\<in>set termDefs. termText d \<noteq> [] \<longrightarrow> slug d \<noteq> [] \<longrightarrow>
        length (termText d1) \<le> length (termText d) \<longrightarrow>
        termMatchesAt uc (termText d) (lastChar None pre) (m @ post) \<longrightarrow>
        sameLetters uc (termText d) (termText d1)"
  shows "buildTermAnnotator lc uc termDefs markup
           = interleave (map (rewriteText lc uc termDefs) (evens (splitTags markup)))
               (odds (splitTags markup)) \<and>
         rewriteText lc uc termDefs (pre @ m @ post)
           = out @ defSpan (slug d2) (source d2) m @ rewriteAfter lc uc termDefs (last m) post"
proof
  show "buildTermAnnotator lc uc termDefs markup
           = interleave (map (rewriteText lc uc termDefs) (evens (splitTags markup)))
               (odds (splitTags markup))"
    by (rule buildTermAnnotator_interleave)
  have mem: "d1 \<in> set (sortedTerms termDefs)" using first by (simp add: set_sortedTerms)
  have comp: "\<forall>d'\<in>set (sortedTerms termDefs).
        length (termText d1) \<le> length (termText d') \<longrightarrow>
        termMatchesAt uc (termText d') (lastChar None pre) (m @ post) \<longrightarrow>
        sameLetters uc (termText d') (termText d1)"
    using others by (auto simp: set_sortedTerms)
  have "infoByLower lc (sortedTerms termDefs) (toLowerCase lc (termText d2))
           = Some (slug d2, source d2)"
    using order second lastOne[folded coll] sameLength[folded coll]
    by (rule infoByLower_last_record)
  then have info: "infoByLower lc (sortedTerms termDefs) (toLowerCase lc m)
           = Some (slug d2, source d2)"
    using coll sp(2) by simp
  show "rewriteText lc uc termDefs (pre @ m @ post)
      = out @ defSpan (slug d2) (source d2) m @ rewriteAfter lc uc termDefs (last m) post"
    using host mem sp(1) reach b1 b2 comp info by (rule annotate_occurrence)
qed

theorem colliding_terms_last_record_wins_witness:
  "buildTermAnnotator id id
     [mkTermDef ''Work'' ''work-101'' ''101'', mkTermDef ''author'' ''author'' ''101'',
      mkTermDef ''work'' ''work-115e'' ''115e'', mkTermDef ''record'' ''record'' ''115e'']
     (js ''<i>the</i> work (WORK) of an author'')
   = js ''<i>the</i> <span class=\"def-term\" data-slug=\"work-115e\" data-def-source=\"115e\">work</span> (<span class=\"def-term\" data-slug=\"work-115e\" data-def-source=\"115e\">WORK</span>) of an <span class=\"def-term\" data-slug=\"author\" data-def-source=\"101\">author</span>''"
proof -
  let ?d1 = "mkTermDef ''Work'' ''work-101'' ''101''"
  let ?dA = "mkTermDef ''author'' ''author'' ''101''"
  let ?d2 = "mkTermDef ''work'' ''work-115e'' ''115e''"
  let ?dR = "mkTermDef ''record'' ''record'' ''115e''"
  let ?defs = "[?d1, ?dA, ?d2, ?dR]"
  let ?markup = "js ''<i>the</i> work (WORK) of an author''"
  let ?pre = "js '' work (''"
  let ?m = "js ''WORK''"
  let ?post = "js '') of an author''"
  let ?out = "js '' <span class=\"def-term\" data-slug=\"work-115e\" data-def-source=\"115e\">work</span> (''"
  have parts: "splitTags ?markup = [[], js ''<i>'', js ''the'', js ''</i>'', ?pre @ ?m @ ?post]"
    by (simp add: splitTags_def matchTag_def js_def)
  have h0: "caseKeepsSpace id" by (simp add: caseKeepsSpace_def)
  have h1: "?d1 \<in> set ?defs" by simp
  have h2: "termText ?d1 \<noteq> []" and h3: "slug ?d1 \<noteq> []" by (simp_all add: mkTermDef_def js_def)
  have h4: "?defs = [?d1, ?dA] @ ?d2 # [?dR]" by simp
  have h5: "termText ?d2 \<noteq> []" and h6: "slug ?d2 \<noteq> []" by (simp_all add: mkTermDef_def js_def)
  have h7: "toLowerCase id (termText ?d2) = toLowerCase id (termText ?d1)"
    by (simp add: annot_eval_defs)
  have h8: "\<forall>d\<in>set [?dR]. termText d \<noteq> [] \<longrightarrow> slug d \<noteq> [] \<longrightarrow>
        toLowerCase id (termText d) \<noteq> toLowerCase id (termText ?d1)"
    by (simp add: annot_eval_defs)
  have h9: "\<forall>d\<in>set [?d1, ?dA]. termText d \<noteq> [] \<longrightarrow> slug d \<noteq> [] \<longrightarrow>
        toLowerCase id (termText d) = toLowerCase id (termText ?d1) \<longrightarrow>
        length (termText d) = length (termText ?d2)"
    by (simp add: annot_eval_defs)
  have h10: "?pre @ ?m @ ?post \<in> set (evens (splitTags ?markup))" unfolding parts by simp
  have h11: "sameLetters id ?m (termText ?d1)" by (simp add: annot_eval_defs)
  have h12: "toLowerCase id ?m = toLowerCase id (termText ?d1)" by (simp add: annot_eval_defs)
  have h13: "annotatedPrefix id id ?defs (?pre @ ?m @ ?post) (length ?pre) = Some ?out"
    by (simp add: annot_eval_defs)
  have h14: "wordBoundary (lastChar None ?pre) (?m @ ?post)" by (simp add: annot_eval_defs)
  have h15: "wordBoundary (Some (last ?m)) ?post" by (simp add: annot_eval_defs)
  have h16: "\<forall>d\<in>set ?defs. termText d \<noteq> [] \<longrightarrow> slug d \<noteq> [] \<longrightarrow>
        length (termText ?d1) \<le> length (termText d) \<longrightarrow>
        termMatchesAt id (termText d) (lastChar None ?pre) (?m @ ?post) \<longrightarrow>
        sameLetters id (termText d) (termText ?d1)"
    by (simp add: annot_eval_defs)
  note T = colliding_terms_last_record_wins
      [OF h0 h1 h2 h3 h4 h5 h6 h7 h8 h9 h10 h11 h12 h13 h14 h15 h16]
  have r: "rewriteAfter id id ?defs (last ?m) ?post
      = js '') of an <span class=\"def-term\" data-slug=\"author\" data-def-source=\"101\">author</span>''"
    by (simp add: annot_eval_defs)
  have e: "rewriteText id id ?defs [] = []" "rewriteText id id ?defs (js ''the'') = js ''the''"
    by (simp_all add: annot_eval_defs)
  have B: "buildTermAnnotator id id ?defs ?markup
      = js ''<i>'' @ js ''the'' @ js ''</i>'' @ rewriteText id id ?defs (?pre @ ?m @ ?post)"
    using T unfolding parts by (simp add: e)
  have E: "rewriteText id id ?defs (?pre @ ?m @ ?post)
      = ?out @ defSpan (slug ?d2) (source ?d2) ?m @ rewriteAfter id id ?defs (last ?m) ?post"
    using T by blast
  show ?thesis unfolding B E r by (simp add: js_def defSpan_def mkTermDef_def)
qed

text \<open>
  Claim C10: for an empty list of definition records, or a list in which every record
  has an empty term or an empty slug, the annotator is the identity: the output is the
  input.
\<close>

theorem buildTermAnnotator_no_terms_identity:
  assumes "\<forall>d \<in> set termDefs. termText d = [] \<or> slug d = []"
  shows "buildTermAnnotator lc uc termDefs markup = markup"
proof -
  from assms have "filter (\<lambda>d. termText d \<noteq> [] \<and> slug d \<noteq> []) termDefs = []"
    by (auto simp: filter_empty_conv)
  then show ?thesis by (simp add: buildTermAnnotator_def sortedTerms_def)
qed

theorem buildTermAnnotator_no_terms_identity_witness:
  "buildTermAnnotator id id [] (js ''the <b>author</b>'') = js ''the <b>author</b>'' \<and>
   buildTermAnnotator id id [mkTermDef [] ''author'' ''101'', mkTermDef ''author'' [] ''101'']
     (js ''the <b>author</b>'') = js ''the <b>author</b>''"
proof -
  have 1: "\<forall>d \<in> set ([] :: TermDef list). termText d = [] \<or> slug d = []" by simp
  have 2: "\<forall>d \<in> set [mkTermDef [] ''author'' ''101'', mkTermDef ''author'' [] ''101''].
      termText d = [] \<or> slug d = []"
    by (simp add: mkTermDef_def js_def)
  show ?thesis
    using buildTermAnnotator_no_terms_identity [OF 1, of id id "js ''the <b>author</b>''"]
      buildTermAnnotator_no_terms_identity [OF 2, of id id "js ''the <b>author</b>''"]
    by simp
qed

lemmas extract_eval_defs =
  motionPictureHtml_def nestedQuoteHtml_def capitalTermHtml_def inchMarkHtml_def js_def matchParagraph_def startsWith_def Let_def
  mkSec101Def_def mkSec101Def_uscode_def termMatch_def termMatch_uscode_def quotedRun_def
  slugify_def slugify_uscode_def toLowerCase_def asciiLower_def isSlugChar_def stripHyphens_def
  stripOneHyphen_def isDigit_def isUpper_def isLower_def

text \<open>
  Claim C9: on the block of the specification the extractor returns one record with the
  term \<open>motion picture\<close> and the slug \<open>motion-picture\<close>; the term of a paragraph of class
  \<open>indent1\<close> is its first curly-quoted span; the slug is the lower-case term with every
  run of other characters turned into one hyphen and the hyphens at the ends removed.
  Both viewers do so on the block of the specification and on a term with capitals and
  punctuation. The pattern of the all-titles viewer also keeps the ASCII double quote out
  of the term, which the pattern of the Title 17 viewer does not: where the first span
  contains one, the all-titles viewer takes a later span, or finds no term at all, and
  the Title 17 viewer takes the first span.
\<close>

theorem parseSec101Defs_uscode_first_span:
  "map term_u (parseSec101Defs_uscode lc nestedQuoteHtml) = [js ''c''] \<and>
   map slug_u (parseSec101Defs_uscode lc nestedQuoteHtml) = [js ''c''] \<and>
   map term101 (parseSec101Defs lc nestedQuoteHtml) = [Some (js ''a \"b\"'')] \<and>
   map slug101 (parseSec101Defs lc nestedQuoteHtml) = [Some (js ''a-b'')] \<and>
   map term_u (parseSec101Defs_uscode lc inchMarkHtml) = [[]] \<and>
   map slug_u (parseSec101Defs_uscode lc inchMarkHtml) = [[]] \<and>
   map term101 (parseSec101Defs lc inchMarkHtml) = [Some (js ''7\" disc'')] \<and>
   map slug101 (parseSec101Defs lc inchMarkHtml) = [Some (js ''7-disc'')] \<and>
   parseSec101Defs lc motionPictureHtml
     = [\<lparr>indentClass = js ''indent1'',
         innerHtml = [8220] @ js ''motion picture'' @ [8221]
           @ js '' means audiovisual works'' @ [8230],
         term101 = Some (js ''motion picture''), slug101 = Some (js ''motion-picture'')\<rparr>] \<and>
   parseSec101Defs_uscode lc motionPictureHtml
     = [\<lparr>slug_u = js ''motion-picture'', term_u = js ''motion picture'',
         innerHtml_u = [8220] @ js ''motion picture'' @ [8221]
           @ js '' means audiovisual works'' @ [8230],
         indentClass_u = js ''indent1''\<rparr>] \<and>
   map term101 (parseSec101Defs lc capitalTermHtml) = [Some (js ''Motion Picture (3-D)'')] \<and>
   map slug101 (parseSec101Defs lc capitalTermHtml) = [Some (js ''motion-picture-3-d'')] \<and>
   map term_u (parseSec101Defs_uscode lc capitalTermHtml) = [js ''Motion Picture (3-D)''] \<and>
   map slug_u (parseSec101Defs_uscode lc capitalTermHtml) = [js ''motion-picture-3-d'']"
  by (simp add: extract_eval_defs)

end
